theory Spec2Isabelle
  imports Main "HOL-Library.Multiset" "HOL-Library.AList"
begin

section \<open>Values shared by both source files\<close>

text \<open>
  A JavaScript exception value. \<open>Error\<close> is a plain \<^verbatim>\<open>new Error(message)\<close>;
  the two \<open>Tos\<close> constructors are the error classes of the object-storage SDK that
  \<^verbatim>\<open>handleError\<close> and \<^verbatim>\<open>getPrimaryKeyCacheEntry\<close> test with \<^verbatim>\<open>instanceof\<close>;
  \<open>Thrown\<close> is any other thrown value.
\<close>

record server_error =
  requestId :: string
  statusCode :: int
  headers :: "(string \<times> string) list"
  code :: string
  message :: string

datatype error =
    Error string
  | TosClientError string string
  | TosServerError server_error
  | Thrown string

text \<open>How an \<^verbatim>\<open>async\<close> call ends: it returns, it raises, or its promise never settles.\<close>

datatype outcome = Returned | Raised error | NeverSettles

section \<open>downloadUtils.ts: the segmented download\<close>

subsection \<open>Segments and single attempts\<close>

text \<open>\<^verbatim>\<open>declare class DownloadSegment { offset; count; buffer }\<close>\<close>

record 'b DownloadSegment =
  seg_offset :: int
  seg_count :: int
  seg_buffer :: 'b

text \<open>
  What one ranged GET does, as far as \<^verbatim>\<open>downloadSegment\<close> and the timer of
  \<^verbatim>\<open>promiseWithTimeout\<close> can tell: the request or the body read rejects, the response
  has no \<^verbatim>\<open>readBodyBuffer\<close>, the body arrives, or nothing settles before the timer.
\<close>

datatype 'b http_attempt = Rejects error | NoReadBodyBuffer | Body 'b | Stalls

text \<open>
  \<^verbatim>\<open>downloadSegment\<close>: \<open>None\<close> is a promise still pending when the timer fires,
  \<open>Some\<close> a promise settled before it.
\<close>

fun downloadSegment :: "'b http_attempt \<Rightarrow> int \<Rightarrow> int \<Rightarrow> (error + 'b DownloadSegment) option" where
  "downloadSegment (Rejects e) offset cnt = Some (Inl e)"
| "downloadSegment NoReadBodyBuffer offset cnt =
     Some (Inl (Error ''Expected HttpClientResponse to implement readBodyBuffer''))"
| "downloadSegment (Body b) offset cnt =
     Some (Inr \<lparr>seg_offset = offset, seg_count = cnt, seg_buffer = b\<rparr>)"
| "downloadSegment Stalls offset cnt = None"

text \<open>
  \<^verbatim>\<open>promiseWithTimeout\<close> races the promise against a timer that resolves to the string
  \<^verbatim>\<open>'timeout'\<close>; a rejection of the promise passes through.
\<close>

datatype 'a timed = TimeoutString | Value 'a

fun promiseWithTimeout :: "(error + 'a) option \<Rightarrow> error + 'a timed" where
  "promiseWithTimeout None = Inr TimeoutString"
| "promiseWithTimeout (Some (Inl e)) = Inl e"
| "promiseWithTimeout (Some (Inr v)) = Inr (Value v)"

subsection \<open>downloadSegmentRetry\<close>

definition retries :: nat where
  "retries = 5"

text \<open>The body of the \<^verbatim>\<open>try\<close> block: \<open>Inr\<close> is the \<^verbatim>\<open>return result\<close>, \<open>Inl\<close> what is caught.\<close>

definition tryAttempt :: "'b http_attempt \<Rightarrow> int \<Rightarrow> int \<Rightarrow> error + 'b DownloadSegment" where
  "tryAttempt a offset cnt =
     (case promiseWithTimeout (downloadSegment a offset cnt) of
        Inl e \<Rightarrow> Inl e
      | Inr TimeoutString \<Rightarrow> Inl (Error ''downloadSegmentRetry failed due to timeout'')
      | Inr (Value result) \<Rightarrow> Inr result)"

text \<open>
  The \<^verbatim>\<open>while (true)\<close> loop, from a given value of \<^verbatim>\<open>failures\<close>. Every iteration
  that does not return increments \<^verbatim>\<open>failures\<close>, so the iteration that runs with
  \<^verbatim>\<open>failures = k\<close> is the attempt number \<open>k\<close> (from 0), \<open>http k\<close>.
\<close>

function downloadSegmentRetry_from ::
  "(nat \<Rightarrow> 'b http_attempt) \<Rightarrow> int \<Rightarrow> int \<Rightarrow> nat \<Rightarrow> error + 'b DownloadSegment" where
  "downloadSegmentRetry_from http offset cnt failures =
     (case tryAttempt (http failures) offset cnt of
        Inr result \<Rightarrow> Inr result
      | Inl err \<Rightarrow>
          if failures \<ge> retries then Inl err
          else downloadSegmentRetry_from http offset cnt (failures + 1))"
  by pat_completeness auto
termination
  by (relation "measure (\<lambda>(http, offset, cnt, failures). retries - failures)") auto

declare downloadSegmentRetry_from.simps [simp del]

definition downloadSegmentRetry ::
  "(nat \<Rightarrow> 'b http_attempt) \<Rightarrow> int \<Rightarrow> int \<Rightarrow> error + 'b DownloadSegment" where
  "downloadSegmentRetry http offset cnt = downloadSegmentRetry_from http offset cnt 0"

subsection \<open>The partition into blocks\<close>

text \<open>
  An entry of \<^verbatim>\<open>downloads\<close>: its \<^verbatim>\<open>offset\<close>, and the \<^verbatim>\<open>count\<close> its
  \<^verbatim>\<open>promiseGetter\<close> closes over.
\<close>

record download =
  d_offset :: int
  d_count :: int

definition blockSize :: int where
  "blockSize = 4 * 1024 * 1024"

text \<open>\<^verbatim>\<open>for (let offset = 0; offset < length; offset += blockSize)\<close>, from a given offset.\<close>

function blocksFrom :: "int \<Rightarrow> int \<Rightarrow> download list" where
  "blocksFrom len offset =
     (if offset < len
      then \<lparr>d_offset = offset, d_count = min blockSize (len - offset)\<rparr>
             # blocksFrom len (offset + blockSize)
      else [])"
  by pat_completeness auto
termination
  by (relation "measure (\<lambda>(len, offset). nat (len - offset))") (auto simp: blockSize_def)

declare blocksFrom.simps [simp del]

definition mkDownloads :: "int \<Rightarrow> download list" where
  "mkDownloads len = blocksFrom len 0"

subsection \<open>The bounded pool\<close>

text \<open>
  The mutable state of the transfer. \<open>activeDownloads\<close> is the object keyed by offset; a
  promise is represented by the value it settles to. \<open>written\<close> lists the positioned writes
  \<^verbatim>\<open>archiveDescriptor.write(buffer, 0, count, offset)\<close> in the order they happen, and
  \<open>inflight\<close> the number of entries of \<open>activeDownloads\<close> after each change of it.
\<close>

record 'b transfer =
  activeDownloads :: "(int \<times> (error + 'b DownloadSegment)) list"
  actives :: int
  bytesDownloaded :: int
  written :: "'b DownloadSegment list"
  inflight :: "nat list"

definition initial :: "'b transfer" where
  "initial = \<lparr>activeDownloads = [], actives = 0, bytesDownloaded = 0, written = [], inflight = []\<rparr>"

text \<open>
  The completion order is not the program's to choose: a schedule gives, for each call of
  \<^verbatim>\<open>waitAndWrite\<close>, which of the entries of \<^verbatim>\<open>Object.values(activeDownloads)\<close> wins
  the race (taken modulo their number; 0 once the schedule is used up).
\<close>

definition nextChoice :: "nat list \<Rightarrow> nat" where
  "nextChoice sched = (case sched of [] \<Rightarrow> 0 | c # _ \<Rightarrow> c)"

definition waitAndWrite :: "nat \<Rightarrow> 'b transfer \<Rightarrow> outcome \<times> 'b transfer" where
  "waitAndWrite choice st =
     (case map snd (activeDownloads st) of
        [] \<Rightarrow> (NeverSettles, st)
      | p # ps \<Rightarrow>
          (case (p # ps) ! (choice mod length (p # ps)) of
             Inl e \<Rightarrow> (Raised e, st)
           | Inr segment \<Rightarrow>
               (let act = AList.delete (seg_offset segment) (activeDownloads st)
                in (Returned,
                    st\<lparr>written := written st @ [segment],
                       actives := actives st - 1,
                       activeDownloads := act,
                       bytesDownloaded := bytesDownloaded st + seg_count segment,
                       inflight := inflight st @ [length act]\<rparr>))))"

text \<open>\<^verbatim>\<open>while (actives > 0) { await waitAndWrite() }\<close>\<close>

function drainLoop :: "nat list \<Rightarrow> 'b transfer \<Rightarrow> outcome \<times> 'b transfer" where
  "drainLoop sched st =
     (if actives st > 0
      then (case waitAndWrite (nextChoice sched) st of
              (Returned, st') \<Rightarrow> drainLoop (tl sched) st'
            | r \<Rightarrow> r)
      else (Returned, st))"
  by pat_completeness auto
termination
  by (relation "measure (\<lambda>(sched, st). nat (actives st))")
     (auto simp: waitAndWrite_def Let_def split: list.splits sum.splits)

declare drainLoop.simps [simp del]

text \<open>\<^verbatim>\<open>activeDownloads[nextDownload.offset] = nextDownload.promiseGetter(); actives++\<close>\<close>

definition launch ::
  "(download \<Rightarrow> error + 'b DownloadSegment) \<Rightarrow> download \<Rightarrow> 'b transfer \<Rightarrow> 'b transfer" where
  "launch getter nextDownload st =
     (let act = AList.update (d_offset nextDownload) (getter nextDownload) (activeDownloads st)
      in st\<lparr>activeDownloads := act,
            actives := actives st + 1,
            inflight := inflight st @ [length act]\<rparr>)"

text \<open>
  \<^verbatim>\<open>while ((nextDownload = downloads.pop()))\<close> over the entries in the order
  \<^verbatim>\<open>pop\<close> hands them out, followed by the draining loop.
\<close>

fun dispatchLoop ::
  "(download \<Rightarrow> error + 'b DownloadSegment) \<Rightarrow> int \<Rightarrow> nat list \<Rightarrow> download list
     \<Rightarrow> 'b transfer \<Rightarrow> outcome \<times> 'b transfer" where
  "dispatchLoop getter limit sched [] st = drainLoop sched st"
| "dispatchLoop getter limit sched (nextDownload # downloads) st =
     (let st1 = launch getter nextDownload st
      in if actives st1 \<ge> limit
         then (case waitAndWrite (nextChoice sched) st1 of
                 (Returned, st2) \<Rightarrow> dispatchLoop getter limit (tl sched) downloads st2
               | r \<Rightarrow> r)
         else dispatchLoop getter limit sched downloads st1)"

text \<open>Successive \<^verbatim>\<open>pop\<close>s hand out an array's elements from its end.\<close>

definition popOrder :: "'a list \<Rightarrow> 'a list" where
  "popOrder xs = rev xs"

subsection \<open>The metadata probe and the whole download\<close>

text \<open>
  \<^verbatim>\<open>parseInt(string)\<close> with no radix, as ECMAScript defines it: leading white space is
  dropped, one sign is read, a \<^verbatim>\<open>0x\<close> prefix selects radix 16, and the longest run of
  digits of the radix is the number; no digit at all gives \<^verbatim>\<open>NaN\<close> (here \<open>None\<close>).
  Characters are the Latin-1 code units of a header value. The result is the exact
  integer, which is the JavaScript number as long as it is below \<open>2 ^ 53\<close>.
\<close>

definition isStrWhiteSpaceChar :: "char \<Rightarrow> bool" where
  "isStrWhiteSpaceChar c = ((of_char c :: nat) \<in> {9, 10, 11, 12, 13, 32, 160})"

definition digitValue :: "char \<Rightarrow> nat option" where
  "digitValue c =
     (let n = (of_char c :: nat)
      in if 48 \<le> n \<and> n \<le> 57 then Some (n - 48)
         else if 97 \<le> n \<and> n \<le> 102 then Some (n - 87)
         else if 65 \<le> n \<and> n \<le> 70 then Some (n - 55)
         else None)"

definition isRadixDigit :: "nat \<Rightarrow> char \<Rightarrow> bool" where
  "isRadixDigit R c = (case digitValue c of None \<Rightarrow> False | Some v \<Rightarrow> v < R)"

definition mathInt :: "nat \<Rightarrow> string \<Rightarrow> int" where
  "mathInt R Z =
     foldl (\<lambda>acc c. acc * int R + (case digitValue c of None \<Rightarrow> 0 | Some v \<Rightarrow> int v)) 0 Z"

definition parseInt :: "string \<Rightarrow> int option" where
  "parseInt inputString =
     (let S = dropWhile isStrWhiteSpaceChar inputString;
          sign = (if take 1 S = ''-'' then - 1 else 1);
          S1 = (if take 1 S = ''+'' \<or> take 1 S = ''-'' then drop 1 S else S);
          hex = (take 2 S1 = ''0x'' \<or> take 2 S1 = ''0X'');
          R = (if hex then 16 else 10);
          S2 = (if hex then drop 2 S1 else S1);
          Z = takeWhile (isRadixDigit R) S2
      in if Z = [] then None else Some (sign * mathInt R Z))"

text \<open>\<^verbatim>\<open>options.downloadConcurrency ?? 10\<close>\<close>

definition concurrencyLimit :: "int option \<Rightarrow> int" where
  "concurrencyLimit downloadConcurrency =
     (case downloadConcurrency of None \<Rightarrow> 10 | Some n \<Rightarrow> n)"

text \<open>
  The promise a \<^verbatim>\<open>promiseGetter\<close> starts. \<open>http offset cnt k\<close> is what the \<open>k\<close>-th
  ranged GET for \<^verbatim>\<open>bytes=offset-(offset + cnt - 1)\<close> does.
\<close>

definition promiseGetter ::
  "(int \<Rightarrow> int \<Rightarrow> nat \<Rightarrow> 'b http_attempt) \<Rightarrow> download \<Rightarrow> error + 'b DownloadSegment" where
  "promiseGetter http d =
     downloadSegmentRetry (http (d_offset d) (d_count d)) (d_offset d) (d_count d)"

text \<open>The function body from \<^verbatim>\<open>const downloads = []\<close> on, for a parsed length.\<close>

definition transferBlocks ::
  "(int \<Rightarrow> int \<Rightarrow> nat \<Rightarrow> 'b http_attempt) \<Rightarrow> int option \<Rightarrow> nat list \<Rightarrow> int
     \<Rightarrow> outcome \<times> 'b transfer" where
  "transferBlocks http downloadConcurrency sched len =
     dispatchLoop (promiseGetter http) (concurrencyLimit downloadConcurrency) sched
       (popOrder (rev (mkDownloads len))) initial"

text \<open>
  \<open>probe\<close> is the result of the retried HEAD request: an error, or the response's
  \<^verbatim>\<open>content-length\<close> header (\<open>None\<close> when it is \<^verbatim>\<open>undefined\<close>). The model starts
  with the archive open for writing and takes every positioned write to succeed; the
  \<^verbatim>\<open>finally\<close> block releases the client and the descriptor and changes no result.
\<close>

definition downloadCacheHttpClientConcurrent ::
  "error + string option \<Rightarrow> (int \<Rightarrow> int \<Rightarrow> nat \<Rightarrow> 'b http_attempt) \<Rightarrow> int option
     \<Rightarrow> nat list \<Rightarrow> outcome \<times> 'b transfer" where
  "downloadCacheHttpClientConcurrent probe http downloadConcurrency sched =
     (case probe of
        Inl e \<Rightarrow> (Raised e, initial)
      | Inr None \<Rightarrow> (Raised (Error ''Content-Length not found on blob response''), initial)
      | Inr (Some lengthHeader) \<Rightarrow>
          (case parseInt lengthHeader of
             None \<Rightarrow> (Raised (Error ''Could not interpret Content-Length: NaN''), initial)
           | Some len \<Rightarrow> transferBlocks http downloadConcurrency sched len))"


section \<open>The object-storage client: fingerprint, resolution, save\<close>

subsection \<open>Environment, backend and log\<close>

text \<open>
  \<^verbatim>\<open>process.env["BUCKET_NAME"]\<close>, \<^verbatim>\<open>process.env["GITHUB_REPOSITORY"]\<close> (\<open>None\<close> when
  the variable is not set) and \<^verbatim>\<open>process.platform\<close>.
\<close>

record environment =
  bucket :: "string option"
  repo :: "string option"
  platform :: string

text \<open>A value inside a template literal: \<^verbatim>\<open>undefined\<close> prints as the word.\<close>

definition template :: "string option \<Rightarrow> string" where
  "template v = (case v of None \<Rightarrow> ''undefined'' | Some s \<Rightarrow> s)"

text \<open>\<^verbatim>\<open>`caches/${repo}/${key}`\<close>\<close>

definition location :: "environment \<Rightarrow> string option \<Rightarrow> string" where
  "location env key = ''caches/'' @ template (repo env) @ ''/'' @ template key"

text \<open>
  A JavaScript number that is an integer or \<^verbatim>\<open>NaN\<close>, with its \<^verbatim>\<open>>\<close>: a comparison
  with \<^verbatim>\<open>NaN\<close> is false.
\<close>

datatype jsnumber = Number int | NaN

fun js_gt :: "jsnumber \<Rightarrow> jsnumber \<Rightarrow> bool" where
  "js_gt (Number a) (Number b) = (a > b)"
| "js_gt _ _ = False"

text \<open>
  An element of \<^verbatim>\<open>data.Contents\<close>. \<open>LastModified\<close> holds the value the code reads from
  the field, \<^verbatim>\<open>new Date(LastModified).getTime()\<close>: milliseconds, or \<^verbatim>\<open>NaN\<close> for a
  date that does not parse.
\<close>

record tos_object =
  Key :: string
  LastModified :: jsnumber

text \<open>
  The three calls made on the \<^verbatim>\<open>TosClient\<close>, each with its bucket: \<open>Inl\<close> is a rejected
  promise. For a listing, \<open>Inl\<close> also stands for a response whose \<^verbatim>\<open>data.Contents\<close>
  cannot be read, which raises inside the same \<^verbatim>\<open>try\<close>.
\<close>

record tos_client =
  headObject :: "string option \<Rightarrow> string \<Rightarrow> error + unit"
  listObjectsType2 :: "string option \<Rightarrow> string \<Rightarrow> int \<Rightarrow> error + tos_object list"
  putObjectFromFile :: "string option \<Rightarrow> string \<Rightarrow> string \<Rightarrow> error + unit"

text \<open>What a call leaves behind: the requests sent to the backend and the lines logged.\<close>

datatype log_value = Str string | Num int | Headers "(string \<times> string) list" | Err error

datatype event =
    HeadRequest "string option" string
  | ListRequest "string option" string int
  | PutRequest "string option" string string
  | Warn string
  | Log string log_value
  | Debug string
  | Info string
  | CacheSizeInfo int int

text \<open>An \<^verbatim>\<open>async\<close> function: the events it causes, and its exception or its result.\<close>

type_synonym 'a async = "event list \<times> (error + 'a)"

definition after :: "event list \<Rightarrow> 'a async \<Rightarrow> 'a async" where
  "after evs m = (evs @ fst m, snd m)"

subsection \<open>getCacheVersion\<close>

definition versionSalt :: string where
  "versionSalt = ''1.0''"

text \<open>\<^verbatim>\<open>Array.prototype.join\<close> on an array of strings.\<close>

fun joinWith :: "string \<Rightarrow> string list \<Rightarrow> string" where
  "joinWith sep [] = []"
| "joinWith sep [x] = x"
| "joinWith sep (x # y # ys) = x @ sep @ joinWith sep (y # ys)"

text \<open>
  The array \<^verbatim>\<open>components\<close> when it is hashed. \<open>compressionMethod\<close> is \<open>None\<close> for
  \<^verbatim>\<open>undefined\<close>; an empty string is falsy too and is not pushed.
\<close>

definition versionComponents :: "string \<Rightarrow> string list \<Rightarrow> string option \<Rightarrow> bool \<Rightarrow> string list" where
  "versionComponents plat paths compressionMethod enableCrossOsArchive =
     paths
     @ (case compressionMethod of None \<Rightarrow> [] | Some m \<Rightarrow> if m = [] then [] else [m])
     @ (if plat = ''win32'' \<and> \<not> enableCrossOsArchive then [''windows-only''] else [])
     @ [versionSalt]"

text \<open>
  \<open>sha256hex\<close> is \<^verbatim>\<open>crypto.createHash("sha256").update(s).digest("hex")\<close>, a function of
  the runtime.
\<close>

definition getCacheVersion ::
  "(string \<Rightarrow> string) \<Rightarrow> string \<Rightarrow> string list \<Rightarrow> string option \<Rightarrow> bool \<Rightarrow> string" where
  "getCacheVersion sha256hex plat paths compressionMethod enableCrossOsArchive =
     sha256hex (joinWith ''|'' (versionComponents plat paths compressionMethod enableCrossOsArchive))"

subsection \<open>Resolution\<close>

text \<open>\<^verbatim>\<open>ArtifactCacheEntry\<close>, every field optional.\<close>

record cache_entry =
  cacheKey :: "string option"
  cacheVersion :: "string option"
  objectKey :: "string option"

definition handleError :: "error \<Rightarrow> event list" where
  "handleError err =
     (case err of
        TosClientError msg stack \<Rightarrow>
          [Log ''Client Err Msg:'' (Str msg), Log ''Client Err Stack:'' (Str stack)]
      | TosServerError e \<Rightarrow>
          [Log ''Request ID:'' (Str (requestId e)),
           Log ''Response Status Code:'' (Num (statusCode e)),
           Log ''Response Header:'' (Headers (headers e)),
           Log ''Response Err Code:'' (Str (code e)),
           Log ''Response Err Msg:'' (Str (message e))]
      | _ \<Rightarrow> [Log ''unexpected exception, message: '' (Err err)])"

text \<open>\<^verbatim>\<open>error instanceof TosServerError && error.statusCode === 404\<close>\<close>

definition isNotFound :: "error \<Rightarrow> bool" where
  "isNotFound err = (case err of TosServerError e \<Rightarrow> statusCode e = 404 | _ \<Rightarrow> False)"

text \<open>\<open>primaryKey\<close> is \<open>None\<close> when the caller's \<^verbatim>\<open>keys[0]\<close> is \<^verbatim>\<open>undefined\<close>.\<close>

definition getPrimaryKeyCacheEntry ::
  "environment \<Rightarrow> tos_client \<Rightarrow> string \<Rightarrow> string option \<Rightarrow> cache_entry option async" where
  "getPrimaryKeyCacheEntry env client version primaryKey =
     (let objKey = location env primaryKey
      in case headObject client (bucket env) objKey of
           Inr _ \<Rightarrow>
             ([HeadRequest (bucket env) objKey],
              Inr (Some \<lparr>cacheKey = primaryKey, cacheVersion = Some version,
                          objectKey = Some objKey\<rparr>))
         | Inl err \<Rightarrow>
             (HeadRequest (bucket env) objKey #
                (if isNotFound err
                 then [Warn (''Unable to find cache with primary key: '' @ objKey @ ''.'')]
                 else []),
              Inr None))"

text \<open>
  The inner \<^verbatim>\<open>for\<close> loop from index \<open>i\<close>, with the current \<^verbatim>\<open>index\<close> and
  \<^verbatim>\<open>latestModifiedTime\<close>; its value is the final \<^verbatim>\<open>index\<close>.
\<close>

function latestFrom :: "tos_object list \<Rightarrow> nat \<Rightarrow> nat \<Rightarrow> jsnumber \<Rightarrow> nat" where
  "latestFrom contents i index latestModifiedTime =
     (if i < length contents
      then (let modifiedTime = LastModified (contents ! i)
            in if js_gt modifiedTime latestModifiedTime
               then latestFrom contents (i + 1) i modifiedTime
               else latestFrom contents (i + 1) index latestModifiedTime)
      else index)"
  by pat_completeness auto
termination
  by (relation "measure (\<lambda>(contents, i, index, t). length contents - i)") auto

declare latestFrom.simps [simp del]

text \<open>
  One iteration of the loop over the restore keys: the requests and log lines, and
  \<open>Some\<close> entry when the iteration returns it, \<open>None\<close> when the loop goes on
  (\<^verbatim>\<open>continue\<close>, or the end of the \<^verbatim>\<open>catch\<close> block).
\<close>

definition tryRestoreKey ::
  "environment \<Rightarrow> tos_client \<Rightarrow> string \<Rightarrow> string \<Rightarrow> event list \<times> cache_entry option" where
  "tryRestoreKey env client version key =
     (let prefix = location env (Some key)
      in case listObjectsType2 client (bucket env) prefix 100 of
           Inl err \<Rightarrow>
             (ListRequest (bucket env) prefix 100 #
              Warn (''an error occurred when trying to find cache with restore key '' @ prefix) #
              handleError err,
              None)
         | Inr contents \<Rightarrow>
             if length contents = 0
             then ([ListRequest (bucket env) prefix 100,
                    Warn (''Unable to find cache with restore key '' @ prefix @ ''.'')],
                   None)
             else (let index = latestFrom contents 1 0 (LastModified (contents ! 0));
                       matchedKey = Key (contents ! index)
                   in ([ListRequest (bucket env) prefix 100],
                       Some \<lparr>cacheKey = Some matchedKey, cacheVersion = Some version,
                              objectKey = Some matchedKey\<rparr>)))"

fun getRestoreKeysCacheEntry ::
  "environment \<Rightarrow> tos_client \<Rightarrow> string \<Rightarrow> string list \<Rightarrow> cache_entry option async" where
  "getRestoreKeysCacheEntry env client version [] = ([], Inr None)"
| "getRestoreKeysCacheEntry env client version (key # restoreKeys) =
     (case tryRestoreKey env client version key of
        (evs, Some entry) \<Rightarrow> (evs, Inr (Some entry))
      | (evs, None) \<Rightarrow> after evs (getRestoreKeysCacheEntry env client version restoreKeys))"

text \<open>\<^verbatim>\<open>InternalCacheOptions\<close>, as far as \<^verbatim>\<open>getCacheEntry\<close> reads it.\<close>

record cache_options =
  compressionMethod :: "string option"
  enableCrossOsArchive :: "bool option"

text \<open>
  \<^verbatim>\<open>getCacheVersion(paths, options?.compressionMethod, options?.enableCrossOsArchive)\<close>;
  an \<^verbatim>\<open>undefined\<close> third argument takes the default \<^verbatim>\<open>false\<close>.
\<close>

definition versionOf ::
  "environment \<Rightarrow> (string \<Rightarrow> string) \<Rightarrow> string list \<Rightarrow> cache_options option \<Rightarrow> string" where
  "versionOf env sha256hex paths options =
     getCacheVersion sha256hex (platform env) paths
       (case options of None \<Rightarrow> None | Some opts \<Rightarrow> compressionMethod opts)
       (case options of
          None \<Rightarrow> False
        | Some opts \<Rightarrow> (case enableCrossOsArchive opts of None \<Rightarrow> False | Some b \<Rightarrow> b))"

text \<open>\<^verbatim>\<open>keys[0]\<close>, which is \<^verbatim>\<open>undefined\<close> for an empty array.\<close>

definition firstKey :: "string list \<Rightarrow> string option" where
  "firstKey keys = (case keys of [] \<Rightarrow> None | k # _ \<Rightarrow> Some k)"

definition getCacheEntry ::
  "environment \<Rightarrow> (string \<Rightarrow> string) \<Rightarrow> tos_client \<Rightarrow> string list \<Rightarrow> string list
     \<Rightarrow> cache_options option \<Rightarrow> cache_entry option async" where
  "getCacheEntry env sha256hex client keys paths options =
     (let version = versionOf env sha256hex paths options
      in case getPrimaryKeyCacheEntry env client version (firstKey keys) of
           (evs, Inl e) \<Rightarrow> (evs, Inl e)
         | (evs, Inr (Some entry)) \<Rightarrow> (evs, Inr (Some entry))
         | (evs, Inr None) \<Rightarrow>
             (case getRestoreKeysCacheEntry env client version (drop 1 keys) of
                (evs', Inl e) \<Rightarrow> (evs @ evs', Inl e)
              | (evs', Inr (Some entry)) \<Rightarrow> (evs @ evs', Inr (Some entry))
              | (evs', Inr None) \<Rightarrow>
                  (evs @ evs' @
                     [Warn (''Failed to find cache that matches keys: '' @ joinWith '','' keys)],
                   Inr (Some \<lparr>cacheKey = None, cacheVersion = Some version,
                               objectKey = None\<rparr>))))"

text \<open>The listing requests among the events of a call, in the order they were sent.\<close>

definition listRequests :: "event list \<Rightarrow> event list" where
  "listRequests evs = filter (\<lambda>ev. case ev of ListRequest b p m \<Rightarrow> True | _ \<Rightarrow> False) evs"

subsection \<open>Save\<close>




section \<open>Invariants of the transfer\<close>

text \<open>
  The keys of \<open>activeDownloads\<close> are distinct and every settled segment sits under its own
  offset; \<open>actives\<close> counts the entries; a promise getter hands back the range it was
  asked for.
\<close>

definition keyed :: "(int \<times> (error + 'b DownloadSegment)) list \<Rightarrow> bool" where
  "keyed act = (distinct (map fst act) \<and> (\<forall>k s. (k, Inr s) \<in> set act \<longrightarrow> seg_offset s = k))"

definition consistent :: "'b transfer \<Rightarrow> bool" where
  "consistent st = (keyed (activeDownloads st) \<and> actives st = int (length (activeDownloads st)))"

definition honest :: "(download \<Rightarrow> error + 'b DownloadSegment) \<Rightarrow> bool" where
  "honest getter = (\<forall>d s. getter d = Inr s \<longrightarrow> seg_offset s = d_offset d \<and> seg_count s = d_count d)"

section \<open>The partition\<close>


lemma blocksFrom_shape:
  "d \<in> set (blocksFrom len off) \<Longrightarrow>
     off \<le> d_offset d \<and> d_offset d < len \<and> (d_offset d - off) mod blockSize = 0
     \<and> d_count d = min blockSize (len - d_offset d)"
proof (induction len off rule: blocksFrom.induct)
  case (1 len offset)
  show ?case
  proof (cases "offset < len")
    case False
    with "1.prems" show ?thesis by (simp add: blocksFrom.simps)
  next
    case True
    from "1.prems" True have
      "d = \<lparr>d_offset = offset, d_count = min blockSize (len - offset)\<rparr>
        \<or> d \<in> set (blocksFrom len (offset + blockSize))"
      by (subst (asm) blocksFrom.simps) simp
    then show ?thesis
    proof
      assume "d = \<lparr>d_offset = offset, d_count = min blockSize (len - offset)\<rparr>"
      then show ?thesis using True by simp
    next
      assume "d \<in> set (blocksFrom len (offset + blockSize))"
      from "1.IH"[OF True this] show ?thesis
        by (auto simp: blockSize_def algebra_simps) 
    qed
  qed
qed

lemma blocksFrom_distinct: "distinct (map d_offset (blocksFrom len off))"
proof (induction len off rule: blocksFrom.induct)
  case (1 len offset)
  show ?case
  proof (cases "offset < len")
    case False
    then show ?thesis by (simp add: blocksFrom.simps)
  next
    case True
    have "offset \<notin> d_offset ` set (blocksFrom len (offset + blockSize))"
      by (auto dest!: blocksFrom_shape simp: blockSize_def)
    then show ?thesis using True "1.IH"[OF True]
      by (subst blocksFrom.simps) simp
  qed
qed



section \<open>The bounded pool, step by step\<close>

lemma delete_absent: "k \<notin> fst ` set al \<Longrightarrow> AList.delete k al = al"
  by (induction al) auto

lemma update_absent: "k \<notin> fst ` set al \<Longrightarrow> AList.update k v al = al @ [(k, v)]"
  by (induction al) auto

lemma delete_present:
  "distinct (map fst al) \<Longrightarrow> (k, v) \<in> set al \<Longrightarrow> mset al = add_mset (k, v) (mset (AList.delete k al))"
proof (induction al)
  case Nil
  then show ?case by simp
next
  case (Cons a al)
  show ?case
  proof (cases "fst a = k")
    case True
    with Cons.prems have "a = (k, v)" "k \<notin> fst ` set al"
      by (auto simp: image_iff)
    then show ?thesis by (simp add: delete_absent)
  next
    case False
    with Cons show ?thesis by (cases a) auto
  qed
qed

lemma waitAndWrite_empty:
  "activeDownloads st = [] \<Longrightarrow> waitAndWrite c st = (NeverSettles, st)"
  by (simp add: waitAndWrite_def)

lemma waitAndWrite_pick:
  assumes "activeDownloads st \<noteq> []"
  shows "waitAndWrite c st =
     (case snd (activeDownloads st ! (c mod length (activeDownloads st))) of
        Inl e \<Rightarrow> (Raised e, st)
      | Inr segment \<Rightarrow>
          (Returned,
           st\<lparr>written := written st @ [segment],
              actives := actives st - 1,
              activeDownloads := AList.delete (seg_offset segment) (activeDownloads st),
              bytesDownloaded := bytesDownloaded st + seg_count segment,
              inflight := inflight st @ [length (AList.delete (seg_offset segment) (activeDownloads st))]\<rparr>))"
proof -
  let ?act = "activeDownloads st"
  let ?i = "c mod length ?act"
  have i: "?i < length ?act" using assms by simp
  obtain p ps where pps: "map snd ?act = p # ps"
    using assms by (cases "map snd ?act") auto
  have "(p # ps) ! (c mod length (p # ps)) = snd (?act ! ?i)"
    using i by (metis pps length_map nth_map)
  then show ?thesis
    by (simp add: waitAndWrite_def pps Let_def split: sum.splits)
qed

lemma waitAndWrite_Returned:
  assumes "waitAndWrite c st = (Returned, st')" "consistent st"
  shows "\<exists>s. written st' = written st @ [s]
           \<and> mset (map snd (activeDownloads st)) = add_mset (Inr s) (mset (map snd (activeDownloads st')))
           \<and> Suc (length (activeDownloads st')) = length (activeDownloads st)
           \<and> inflight st' = inflight st @ [length (activeDownloads st')]
           \<and> set (activeDownloads st') \<subseteq> set (activeDownloads st)
           \<and> actives st' = actives st - 1
           \<and> consistent st'"
proof -
  let ?act = "activeDownloads st"
  let ?i = "c mod length ?act"
  have ne: "?act \<noteq> []" using assms(1) by (auto simp: waitAndWrite_empty)
  then have i: "?i < length ?act" by simp
  from assms(1) ne obtain s where s: "snd (?act ! ?i) = Inr s"
    and st': "st' = st\<lparr>written := written st @ [s],
              actives := actives st - 1,
              activeDownloads := AList.delete (seg_offset s) ?act,
              bytesDownloaded := bytesDownloaded st + seg_count s,
              inflight := inflight st @ [length (AList.delete (seg_offset s) ?act)]\<rparr>"
    by (auto simp: waitAndWrite_pick split: sum.splits)
  have mem: "(fst (?act ! ?i), Inr s) \<in> set ?act"
    using i s by (metis nth_mem prod.collapse)
  have k: "seg_offset s = fst (?act ! ?i)"
    using assms(2) mem by (auto simp: consistent_def keyed_def)
  have dist: "distinct (map fst ?act)" using assms(2) by (simp add: consistent_def keyed_def)
  have ms: "mset ?act = add_mset (seg_offset s, Inr s) (mset (AList.delete (seg_offset s) ?act))"
    using delete_present[OF dist] mem k by simp
  have ms2: "mset (map snd ?act) = add_mset (Inr s) (mset (map snd (AList.delete (seg_offset s) ?act)))"
    using arg_cong[OF ms, of "image_mset snd"] by simp
  have len: "length ?act = Suc (length (AList.delete (seg_offset s) ?act))"
    using arg_cong[OF ms, of size] by simp
  have sub: "set (AList.delete (seg_offset s) ?act) \<subseteq> set ?act"
    by (auto simp: AList.delete_eq)
  have keyed': "keyed (AList.delete (seg_offset s) ?act)"
    using assms(2) sub unfolding consistent_def keyed_def
    by (auto simp: AList.distinct_delete)
  show ?thesis
    using ms2 len sub keyed' assms(2) by (intro exI[of _ s]) (auto simp: st' consistent_def)
qed

lemma waitAndWrite_unchanged:
  "waitAndWrite c st = (r, st') \<Longrightarrow> r \<noteq> Returned \<Longrightarrow> st' = st"
  by (cases "activeDownloads st = []")
     (auto simp: waitAndWrite_empty waitAndWrite_pick split: sum.splits)


lemma waitAndWrite_succeeds:
  "activeDownloads st \<noteq> [] \<Longrightarrow> \<forall>v \<in> snd ` set (activeDownloads st). \<not> isl v
     \<Longrightarrow> fst (waitAndWrite c st) = Returned"
proof -
  assume ne: "activeDownloads st \<noteq> []" and ok: "\<forall>v \<in> snd ` set (activeDownloads st). \<not> isl v"
  let ?act = "activeDownloads st"
  have "?act ! (c mod length ?act) \<in> set ?act" using ne by simp
  then have "\<not> isl (snd (?act ! (c mod length ?act)))" using ok by blast
  then show ?thesis using ne by (auto simp: waitAndWrite_pick split: sum.splits)
qed

lemma launch_consistent:
  assumes "consistent st" "honest getter" "d_offset d \<notin> fst ` set (activeDownloads st)"
  shows "consistent (launch getter d st)"
    and "activeDownloads (launch getter d st) = activeDownloads st @ [(d_offset d, getter d)]"
    and "actives (launch getter d st) = actives st + 1"
    and "inflight (launch getter d st) = inflight st @ [Suc (length (activeDownloads st))]"
    and "written (launch getter d st) = written st"
  using assms
  by (auto simp: launch_def Let_def update_absent consistent_def keyed_def honest_def)


lemma drainLoop_step:
  assumes "actives st > 0"
  shows "drainLoop sched st =
     (case waitAndWrite (nextChoice sched) st of
        (Returned, st') \<Rightarrow> drainLoop (tl sched) st'
      | r \<Rightarrow> r)"
  using assms by (subst drainLoop.simps) simp

lemma drainLoop_done: "\<not> actives st > 0 \<Longrightarrow> drainLoop sched st = (Returned, st)"
  by (subst drainLoop.simps) simp

lemma drainLoop_inflight:
  "consistent st \<Longrightarrow> \<forall>n \<in> set (inflight st). n \<le> b \<Longrightarrow> length (activeDownloads st) \<le> b
     \<Longrightarrow> \<forall>n \<in> set (inflight (snd (drainLoop sched st))). n \<le> b"
proof (induction sched st rule: drainLoop.induct)
  case (1 sched st)
  show ?case
  proof (cases "actives st > 0")
    case False
    then show ?thesis using "1.prems" by (simp add: drainLoop_done)
  next
    case True
    obtain r st1 where w: "waitAndWrite (nextChoice sched) st = (r, st1)"
      by (cases "waitAndWrite (nextChoice sched) st") auto
    show ?thesis
    proof (cases "r = Returned")
      case False
      then have "st1 = st" using w waitAndWrite_unchanged by blast
      then have "drainLoop sched st = (r, st)"
        using False w True by (cases r) (simp_all add: drainLoop_step)
      then show ?thesis using "1.prems" by simp
    next
      case r: True
      from waitAndWrite_Returned[OF w[unfolded r] "1.prems"(1)] have
        s: "Suc (length (activeDownloads st1)) = length (activeDownloads st)"
           "inflight st1 = inflight st @ [length (activeDownloads st1)]"
           "consistent st1"
        by blast+
      have b1: "\<forall>n \<in> set (inflight st1). n \<le> b" "length (activeDownloads st1) \<le> b"
        using s "1.prems" by auto
      have "drainLoop sched st = drainLoop (tl sched) st1"
        using True w r by (simp add: drainLoop_step)
      then show ?thesis
        using "1.IH"[OF True w[symmetric, unfolded r] _ s(3) b1] by simp
    qed
  qed
qed


lemma drainLoop_succeeds:
  "consistent st \<Longrightarrow> \<forall>v \<in> snd ` set (activeDownloads st). \<not> isl v
     \<Longrightarrow> fst (drainLoop sched st) = Returned"
proof (induction sched st rule: drainLoop.induct)
  case (1 sched st)
  show ?case
  proof (cases "actives st > 0")
    case False
    then show ?thesis by (simp add: drainLoop_done)
  next
    case True
    then have ne: "activeDownloads st \<noteq> []" using "1.prems" by (auto simp: consistent_def)
    obtain r st1 where w: "waitAndWrite (nextChoice sched) st = (r, st1)"
      by (cases "waitAndWrite (nextChoice sched) st") auto
    have r: "r = Returned"
      using waitAndWrite_succeeds[OF ne "1.prems"(2), of "nextChoice sched"] w by simp
    from waitAndWrite_Returned[OF w[unfolded r] "1.prems"(1)] have
      s: "consistent st1" "set (activeDownloads st1) \<subseteq> set (activeDownloads st)"
      by blast+
    have ok: "\<forall>v \<in> snd ` set (activeDownloads st1). \<not> isl v"
      using s(2) "1.prems"(2) by blast
    have "drainLoop sched st = drainLoop (tl sched) st1"
      using True w r by (simp add: drainLoop_step)
    then show ?thesis
      using "1.IH"[OF True w[symmetric, unfolded r] _ s(1) ok] by simp
  qed
qed

lemma dispatchLoop_below:
  "\<not> actives (launch getter d st) \<ge> limit \<Longrightarrow>
     dispatchLoop getter limit sched (d # ds) st
       = dispatchLoop getter limit sched ds (launch getter d st)"
  by (simp add: Let_def)

lemma dispatchLoop_wait:
  "actives (launch getter d st) \<ge> limit \<Longrightarrow>
     waitAndWrite (nextChoice sched) (launch getter d st) = (Returned, st2) \<Longrightarrow>
     dispatchLoop getter limit sched (d # ds) st = dispatchLoop getter limit (tl sched) ds st2"
  by (simp add: Let_def)

lemma dispatchLoop_abort:
  "actives (launch getter d st) \<ge> limit \<Longrightarrow>
     waitAndWrite (nextChoice sched) (launch getter d st) = (r, st2) \<Longrightarrow> r \<noteq> Returned \<Longrightarrow>
     dispatchLoop getter limit sched (d # ds) st = (r, launch getter d st)"
  using waitAndWrite_unchanged[of "nextChoice sched" "launch getter d st" r st2]
  by (cases r) (simp_all add: Let_def)

declare dispatchLoop.simps(2) [simp del]


lemma dispatchLoop_inflight:
  "consistent st \<Longrightarrow> honest getter
     \<Longrightarrow> distinct (map d_offset ds) \<Longrightarrow> d_offset ` set ds \<inter> fst ` set (activeDownloads st) = {}
     \<Longrightarrow> \<forall>n \<in> set (inflight st). n \<le> b \<Longrightarrow> 1 \<le> b \<Longrightarrow> limit \<le> int b
     \<Longrightarrow> activeDownloads st = [] \<or> int (length (activeDownloads st)) < limit
     \<Longrightarrow> \<forall>n \<in> set (inflight (snd (dispatchLoop getter limit sched ds st))). n \<le> b"
proof (induction ds arbitrary: st sched)
  case Nil
  have "length (activeDownloads st) \<le> b" using Nil.prems(6,7,8) by auto
  then show ?case using drainLoop_inflight[OF Nil.prems(1) Nil.prems(5)] by simp
next
  case (Cons d ds)
  let ?st1 = "launch getter d st"
  have fresh: "d_offset d \<notin> fst ` set (activeDownloads st)" using Cons.prems(4) by auto
  note L = launch_consistent[OF Cons.prems(1,2) fresh]
  have dist: "distinct (map d_offset ds)" using Cons.prems(3) by simp
  have disj1: "d_offset ` set ds \<inter> fst ` set (activeDownloads ?st1) = {}"
    using Cons.prems(3,4) by (auto simp: L(2))
  have act: "actives st = int (length (activeDownloads st))"
    using Cons.prems(1) by (simp add: consistent_def)
  have "Suc (length (activeDownloads st)) \<le> b" using Cons.prems(6,7,8) by auto
  then have b1: "\<forall>n \<in> set (inflight ?st1). n \<le> b" using Cons.prems(5) by (simp add: L)
  show ?case
  proof (cases "actives ?st1 \<ge> limit")
    case False
    then have "activeDownloads ?st1 = [] \<or> int (length (activeDownloads ?st1)) < limit"
      by (simp add: L act)
    from Cons.IH[OF L(1) Cons.prems(2) dist disj1 b1 Cons.prems(6,7) this] show ?thesis
      by (simp add: dispatchLoop_below[OF False])
  next
    case True
    obtain r st2 where w: "waitAndWrite (nextChoice sched) ?st1 = (r, st2)"
      by (cases "waitAndWrite (nextChoice sched) ?st1") auto
    show ?thesis
    proof (cases "r = Returned")
      case False
      then show ?thesis using b1 by (simp add: dispatchLoop_abort[OF True w False])
    next
      case r: True
      from waitAndWrite_Returned[OF w[unfolded r] L(1)] have
        s: "Suc (length (activeDownloads st2)) = length (activeDownloads ?st1)"
           "inflight st2 = inflight ?st1 @ [length (activeDownloads st2)]"
           "set (activeDownloads st2) \<subseteq> set (activeDownloads ?st1)"
           "consistent st2"
        by blast+
      have len: "length (activeDownloads st2) = length (activeDownloads st)"
        using s(1) by (simp add: L)
      have b2: "\<forall>n \<in> set (inflight st2). n \<le> b"
        using b1 s(2) len \<open>Suc (length (activeDownloads st)) \<le> b\<close> by auto
      have head: "activeDownloads st2 = [] \<or> int (length (activeDownloads st2)) < limit"
        using Cons.prems(8) len by (metis length_0_conv)
      have disj2: "d_offset ` set ds \<inter> fst ` set (activeDownloads st2) = {}"
        using disj1 s(3) by blast
      from Cons.IH[OF s(4) Cons.prems(2) dist disj2 b2 Cons.prems(6,7) head] show ?thesis
        by (simp add: dispatchLoop_wait[OF True w[unfolded r]])
    qed
  qed
qed


lemma dispatchLoop_succeeds:
  "consistent st \<Longrightarrow> honest getter
     \<Longrightarrow> distinct (map d_offset ds) \<Longrightarrow> d_offset ` set ds \<inter> fst ` set (activeDownloads st) = {}
     \<Longrightarrow> \<forall>v \<in> snd ` set (activeDownloads st). \<not> isl v \<Longrightarrow> \<forall>d \<in> set ds. \<not> isl (getter d)
     \<Longrightarrow> fst (dispatchLoop getter limit sched ds st) = Returned"
proof (induction ds arbitrary: st sched)
  case Nil
  then show ?case using drainLoop_succeeds by simp
next
  case (Cons d ds)
  let ?st1 = "launch getter d st"
  have fresh: "d_offset d \<notin> fst ` set (activeDownloads st)" using Cons.prems(4) by auto
  note L = launch_consistent[OF Cons.prems(1,2) fresh]
  have dist: "distinct (map d_offset ds)" using Cons.prems(3) by simp
  have disj1: "d_offset ` set ds \<inter> fst ` set (activeDownloads ?st1) = {}"
    using Cons.prems(3,4) by (auto simp: L(2))
  have ok1: "\<forall>v \<in> snd ` set (activeDownloads ?st1). \<not> isl v"
    using Cons.prems(5,6) by (auto simp: L(2))
  have rest: "\<forall>d \<in> set ds. \<not> isl (getter d)" using Cons.prems(6) by simp
  show ?case
  proof (cases "actives ?st1 \<ge> limit")
    case False
    from Cons.IH[OF L(1) Cons.prems(2) dist disj1 ok1 rest] show ?thesis
      by (simp add: dispatchLoop_below[OF False])
  next
    case True
    obtain r st2 where w: "waitAndWrite (nextChoice sched) ?st1 = (r, st2)"
      by (cases "waitAndWrite (nextChoice sched) ?st1") auto
    have ne: "activeDownloads ?st1 \<noteq> []" by (simp add: L)
    have r: "r = Returned"
      using waitAndWrite_succeeds[OF ne ok1, of "nextChoice sched"] w by simp
    from waitAndWrite_Returned[OF w[unfolded r] L(1)] have
      s: "set (activeDownloads st2) \<subseteq> set (activeDownloads ?st1)" "consistent st2"
      by blast+
    have disj2: "d_offset ` set ds \<inter> fst ` set (activeDownloads st2) = {}"
      using disj1 s(1) by blast
    have ok2: "\<forall>v \<in> snd ` set (activeDownloads st2). \<not> isl v"
      using ok1 s(1) by blast
    from Cons.IH[OF s(2) Cons.prems(2) dist disj2 ok2 rest] show ?thesis
      by (simp add: dispatchLoop_wait[OF True w[unfolded r]])
  qed
qed

lemma dispatchLoop_sequential:
  "dispatchLoop getter limit sched ds st = (Returned, st') \<Longrightarrow> limit \<le> 1
     \<Longrightarrow> activeDownloads st = [] \<Longrightarrow> consistent st \<Longrightarrow> honest getter
     \<Longrightarrow> map Inr (written st') = map Inr (written st) @ map getter ds"
proof (induction ds arbitrary: st sched)
  case Nil
  then show ?case by (simp add: drainLoop_done consistent_def)
next
  case (Cons d ds)
  let ?st1 = "launch getter d st"
  have fresh: "d_offset d \<notin> fst ` set (activeDownloads st)" using Cons.prems(3) by simp
  note L = launch_consistent[OF Cons.prems(4,5) fresh]
  have act1: "activeDownloads ?st1 = [(d_offset d, getter d)]"
    using Cons.prems(3) by (simp add: L)
  have True: "actives ?st1 \<ge> limit"
    using Cons.prems(2,3,4) by (simp add: L consistent_def)
  obtain r st2 where w: "waitAndWrite (nextChoice sched) ?st1 = (r, st2)"
    by (cases "waitAndWrite (nextChoice sched) ?st1") auto
  have r: "r = Returned"
  proof (rule ccontr)
    assume "r \<noteq> Returned"
    from dispatchLoop_abort[OF True w this, of ds] Cons.prems(1) this show False by simp
  qed
  from Cons.prems(1) have rec: "dispatchLoop getter limit (tl sched) ds st2 = (Returned, st')"
    by (simp add: dispatchLoop_wait[OF True w[unfolded r]])
  from waitAndWrite_Returned[OF w[unfolded r] L(1)] obtain s where
    s: "written st2 = written ?st1 @ [s]"
       "mset (map snd (activeDownloads ?st1)) = add_mset (Inr s) (mset (map snd (activeDownloads st2)))"
       "Suc (length (activeDownloads st2)) = length (activeDownloads ?st1)"
       "consistent st2"
    by blast
  have e: "activeDownloads st2 = []" using s(3) by (simp add: act1)
  have g: "getter d = Inr s" using s(2) by (simp add: act1 e)
  from Cons.IH[OF rec Cons.prems(2) e s(4) Cons.prems(5)] show ?case
    using s(1) g by (simp add: L)
qed

subsection \<open>The retry loop\<close>

lemma tryAttempt_simps:
  "tryAttempt (Rejects e) offset cnt = Inl e"
  "tryAttempt NoReadBodyBuffer offset cnt
     = Inl (Error ''Expected HttpClientResponse to implement readBodyBuffer'')"
  "tryAttempt Stalls offset cnt = Inl (Error ''downloadSegmentRetry failed due to timeout'')"
  "tryAttempt (Body b) offset cnt = Inr \<lparr>seg_offset = offset, seg_count = cnt, seg_buffer = b\<rparr>"
  by (simp_all add: tryAttempt_def)

lemma tryAttempt_Inr:
  "tryAttempt a offset cnt = Inr s \<Longrightarrow> seg_offset s = offset \<and> seg_count s = cnt"
  by (cases a) (auto simp: tryAttempt_simps)

lemma retry_from_Inr:
  "downloadSegmentRetry_from http offset cnt failures = Inr s
     \<Longrightarrow> seg_offset s = offset \<and> seg_count s = cnt"
proof (induction http offset cnt failures rule: downloadSegmentRetry_from.induct)
  case (1 http offset cnt failures)
  show ?case
  proof (cases "tryAttempt (http failures) offset cnt")
    case (Inr r)
    with "1.prems" have "r = s" by (subst (asm) downloadSegmentRetry_from.simps) simp
    with Inr show ?thesis using tryAttempt_Inr by blast
  next
    case (Inl err)
    with "1.prems" have nf: "\<not> failures \<ge> retries"
      and "downloadSegmentRetry_from http offset cnt (failures + 1) = Inr s"
      by (subst (asm) downloadSegmentRetry_from.simps, simp split: if_splits)+
    with "1.IH"[OF Inl] show ?thesis by simp
  qed
qed

lemma promiseGetter_honest: "honest (promiseGetter http)"
  by (auto simp: honest_def promiseGetter_def downloadSegmentRetry_def dest: retry_from_Inr)


section \<open>The whole download\<close>

lemma consistent_initial: "consistent initial"
  by (simp add: consistent_def keyed_def initial_def)

lemma popOrder_rev: "popOrder (rev xs) = xs"
  by (simp add: popOrder_def)

lemma mkDownloads_offsets:
  "distinct (map d_offset (mkDownloads len))"
  by (simp add: mkDownloads_def blocksFrom_distinct)



lemma transferBlocks_succeeds:
  assumes "\<forall>d \<in> set (mkDownloads len). \<not> isl (promiseGetter http d)"
  shows "fst (transferBlocks http conc sched len) = Returned"
  unfolding transferBlocks_def popOrder_rev
  using dispatchLoop_succeeds[OF consistent_initial promiseGetter_honest mkDownloads_offsets _ _ assms]
  by (simp add: initial_def)

lemma download_parsed:
  "parseInt lengthHeader = Some len \<Longrightarrow>
     downloadCacheHttpClientConcurrent (Inr (Some lengthHeader)) http conc sched
       = transferBlocks http conc sched len"
  by (simp add: downloadCacheHttpClientConcurrent_def)




lemma promiseGetter_Body:
  "promiseGetter (\<lambda>offset cnt k. Body b) d
     = Inr \<lparr>seg_offset = d_offset d, seg_count = d_count d, seg_buffer = b\<rparr>"
  by (simp add: promiseGetter_def downloadSegmentRetry_def downloadSegmentRetry_from.simps
        tryAttempt_simps)


section \<open>The concurrency bound\<close>

lemma transferBlocks_inflight:
  "\<forall>n \<in> set (inflight (snd (transferBlocks http conc sched len))).
     int n \<le> max 1 (concurrencyLimit conc)"
proof -
  let ?b = "nat (max 1 (concurrencyLimit conc))"
  have "\<forall>n \<in> set (inflight (snd (dispatchLoop (promiseGetter http) (concurrencyLimit conc) sched
            (mkDownloads len) initial))). n \<le> ?b"
    by (rule dispatchLoop_inflight[OF consistent_initial promiseGetter_honest mkDownloads_offsets])
       (auto simp: initial_def)
  then show ?thesis
    unfolding transferBlocks_def popOrder_rev by auto
qed

lemma download_inflight:
  "\<forall>n \<in> set (inflight (snd (downloadCacheHttpClientConcurrent probe http conc sched))).
     int n \<le> max 1 (concurrencyLimit conc)"
proof (cases probe)
  case (Inl e)
  then show ?thesis by (simp add: downloadCacheHttpClientConcurrent_def initial_def)
next
  case (Inr hdr)
  show ?thesis
  proof (cases hdr)
    case None
    with Inr show ?thesis by (simp add: downloadCacheHttpClientConcurrent_def initial_def)
  next
    case (Some h)
    show ?thesis
    proof (cases "parseInt h")
      case None
      with Inr Some show ?thesis by (simp add: downloadCacheHttpClientConcurrent_def initial_def)
    next
      case (Some len)
      with Inr \<open>hdr = Some h\<close> show ?thesis
        using transferBlocks_inflight[of http conc sched len] by (simp add: download_parsed)
    qed
  qed
qed

lemma written_in_order:
  assumes "map Inr (written st') = map getter ds" "honest getter"
  shows "map (\<lambda>s. (seg_offset s, seg_count s)) (written st')
           = map (\<lambda>d. (d_offset d, d_count d)) ds"
proof -
  let ?g = "\<lambda>r. case r of Inl (e::error) \<Rightarrow> (0::int, 0::int) | Inr s \<Rightarrow> (seg_offset s, seg_count s)"
  have "set (map getter ds) = set (map Inr (written st'))"
    using assms(1) by simp
  then have inr: "\<forall>d \<in> set ds. \<exists>s. getter d = Inr s" by auto
  have A: "map (?g \<circ> getter) ds = map (\<lambda>d. (d_offset d, d_count d)) ds"
  proof (rule map_cong[OF refl])
    fix d assume "d \<in> set ds"
    then obtain s where "getter d = Inr s" using inr by blast
    then show "(?g \<circ> getter) d = (d_offset d, d_count d)"
      using assms(2) by (simp add: honest_def)
  qed
  have C: "map (?g \<circ> Inr) (written st') = map (\<lambda>s. (seg_offset s, seg_count s)) (written st')"
    by (rule map_cong[OF refl]) simp
  have "map ?g (map Inr (written st')) = map ?g (map getter ds)"
    by (simp only: assms(1))
  then have "map (?g \<circ> Inr) (written st') = map (?g \<circ> getter) ds"
    by simp
  then show ?thesis by (simp only: A C)
qed

lemma transferBlocks_sequential:
  assumes "transferBlocks http conc sched len = (Returned, st')" "concurrencyLimit conc \<le> 1"
  shows "map (\<lambda>s. (seg_offset s, seg_count s)) (written st')
           = map (\<lambda>d. (d_offset d, d_count d)) (mkDownloads len)"
proof -
  have "map Inr (written st') = map Inr (written initial) @ map (promiseGetter http) (mkDownloads len)"
    by (rule dispatchLoop_sequential[OF assms(1)[unfolded transferBlocks_def popOrder_rev] assms(2)
          _ consistent_initial promiseGetter_honest]) (simp add: initial_def)
  then have "map Inr (written st') = map (promiseGetter http) (mkDownloads len)"
    by (simp add: initial_def)
  then show ?thesis using promiseGetter_honest by (rule written_in_order)
qed

lemma concurrencyLimit_default: "concurrencyLimit None = 10"
  by (simp add: concurrencyLimit_def)

text \<open>
  Claim C2, as the code has it. A block is launched first and the count compared with
  the limit afterwards, so at every point the number of entries of \<open>activeDownloads\<close> is
  at most the larger of 1 and the limit \<^verbatim>\<open>options.downloadConcurrency ?? 10\<close>: for a
  limit of at least 1 it never exceeds the limit, and for a limit of 0 or less one fetch
  is in flight at a time. With the limit 1 the transfer is sequential: at most one fetch
  is in flight and the blocks are written in the order they were generated.
\<close>

theorem inflight_bounded_by_limit:
  "(\<forall>n \<in> set (inflight (snd (downloadCacheHttpClientConcurrent probe http conc sched))).
       int n \<le> max 1 (concurrencyLimit conc))
   \<and> (1 \<le> concurrencyLimit conc \<longrightarrow>
        (\<forall>n \<in> set (inflight (snd (downloadCacheHttpClientConcurrent probe http conc sched))).
           int n \<le> concurrencyLimit conc))
   \<and> concurrencyLimit None = 10
   \<and> (concurrencyLimit conc = 1 \<and> parseInt lengthHeader = Some len
        \<and> downloadCacheHttpClientConcurrent (Inr (Some lengthHeader)) http conc sched
            = (Returned, st') \<longrightarrow>
        map (\<lambda>s. (seg_offset s, seg_count s)) (written st')
          = map (\<lambda>d. (d_offset d, d_count d)) (mkDownloads len))"
proof -
  have a: "\<forall>n \<in> set (inflight (snd (downloadCacheHttpClientConcurrent probe http conc sched))).
       int n \<le> max 1 (concurrencyLimit conc)"
    by (rule download_inflight)
  have b: "\<forall>n \<in> set (inflight (snd (downloadCacheHttpClientConcurrent probe http conc sched))).
           int n \<le> concurrencyLimit conc" if "1 \<le> concurrencyLimit conc"
    using a that by (simp add: max_def)
  have c: "map (\<lambda>s. (seg_offset s, seg_count s)) (written st')
          = map (\<lambda>d. (d_offset d, d_count d)) (mkDownloads len)"
    if "concurrencyLimit conc = 1" "parseInt lengthHeader = Some len"
       "downloadCacheHttpClientConcurrent (Inr (Some lengthHeader)) http conc sched = (Returned, st')"
    using that transferBlocks_sequential[of http conc sched len st'] by (simp add: download_parsed)
  show ?thesis using a b c concurrencyLimit_default by blast
qed

text \<open>
  Claim C2 as stated fails for the limit 0: a one-byte object is fetched with one entry
  in \<open>activeDownloads\<close>, which exceeds 0.
\<close>

theorem inflight_exceeds_limit_zero:
  "\<not> (\<forall>n \<in> set (inflight (snd (downloadCacheHttpClientConcurrent (Inr (Some ''1''))
                                  (\<lambda>offset cnt k. Body ()) (Some 0) []))).
        int n \<le> concurrencyLimit (Some 0))"
  by code_simp

lemma run_Returned: "fst r = Returned \<Longrightarrow> r = (Returned, snd r)"
  by (metis prod.collapse)

theorem inflight_bounded_by_limit_witness:
  "concurrencyLimit (Some 1) = 1
   \<and> parseInt ''9000000'' = Some 9000000
   \<and> fst (downloadCacheHttpClientConcurrent (Inr (Some ''9000000''))
            (\<lambda>offset cnt k. Body ()) (Some 1) []) = Returned
   \<and> list_all (\<lambda>n. int n \<le> 1)
        (inflight (snd (downloadCacheHttpClientConcurrent (Inr (Some ''9000000''))
                          (\<lambda>offset cnt k. Body ()) (Some 1) [])))
   \<and> map (\<lambda>s. (seg_offset s, seg_count s))
        (written (snd (downloadCacheHttpClientConcurrent (Inr (Some ''9000000''))
                         (\<lambda>offset cnt k. Body ()) (Some 1) [])))
       = map (\<lambda>d. (d_offset d, d_count d)) (mkDownloads 9000000)"
proof -
  let ?run = "downloadCacheHttpClientConcurrent (Inr (Some ''9000000''))
                (\<lambda>offset cnt k. Body ()) (Some 1) []"
  note T = inflight_bounded_by_limit
             [where probe = "Inr (Some ''9000000'')" and http = "\<lambda>offset cnt k. Body ()"
                and conc = "Some 1" and sched = "[]" and lengthHeader = "''9000000''"
                and len = 9000000 and st' = "snd ?run"]
  have cl: "concurrencyLimit (Some 1) = 1" by (simp add: concurrencyLimit_def)
  have p: "parseInt ''9000000'' = Some 9000000" by code_simp
  have ok: "\<forall>d \<in> set (mkDownloads 9000000). \<not> isl (promiseGetter (\<lambda>offset cnt k. Body ()) d)"
    by (simp add: promiseGetter_Body)
  have ret: "fst ?run = Returned"
    using transferBlocks_succeeds[OF ok] by (simp add: download_parsed[OF p])
  have run: "?run = (Returned, snd ?run)" using ret by (rule run_Returned)
  have "list_all (\<lambda>n. int n \<le> 1) (inflight (snd ?run))"
    using T cl by (simp add: list_all_iff)
  moreover have "map (\<lambda>s. (seg_offset s, seg_count s)) (written (snd ?run))
       = map (\<lambda>d. (d_offset d, d_count d)) (mkDownloads 9000000)"
    using T cl p run by blast
  ultimately show ?thesis using cl p ret by simp
qed

section \<open>Retries and abort\<close>













section \<open>The content length\<close>









section \<open>The version fingerprint\<close>

lemma joinWith_Cons: "ys \<noteq> [] \<Longrightarrow> joinWith sep (x # ys) = x @ sep @ joinWith sep ys"
  by (cases ys) auto

lemma joinWith_snoc: "joinWith sep (xs @ [z]) = concat (map (\<lambda>x. x @ sep) xs) @ z"
  by (induction xs) (auto simp: joinWith_Cons)

lemma split_at_separator:
  "c \<notin> set p \<Longrightarrow> c \<notin> set q \<Longrightarrow> p @ c # r = q @ c # r' \<Longrightarrow> p = q \<and> r = r'"
proof (induction p arbitrary: q)
  case Nil
  then show ?case by (cases q) auto
next
  case (Cons a p)
  then show ?case by (cases q) auto
qed

lemma separated_inj:
  "\<forall>p \<in> set ps \<union> set qs. c \<notin> set p \<Longrightarrow>
     concat (map (\<lambda>x. x @ [c]) ps) = concat (map (\<lambda>x. x @ [c]) qs) \<Longrightarrow> ps = qs"
proof (induction ps arbitrary: qs)
  case Nil
  then show ?case by (cases qs) auto
next
  case (Cons p ps)
  show ?case
  proof (cases qs)
    case Nil
    with Cons.prems show ?thesis by simp
  next
    case (Cons q qs')
    with Cons.prems have e: "p @ c # concat (map (\<lambda>x. x @ [c]) ps) = q @ c # concat (map (\<lambda>x. x @ [c]) qs')"
      by simp
    have "c \<notin> set p" "c \<notin> set q" using Cons.prems(1) Cons by auto
    from split_at_separator[OF this e] have pq: "p = q"
      and rest: "concat (map (\<lambda>x. x @ [c]) ps) = concat (map (\<lambda>x. x @ [c]) qs')" by auto
    have "ps = qs'" using Cons.IH[OF _ rest] Cons.prems(1) Cons by auto
    with pq Cons show ?thesis by simp
  qed
qed

lemma versionComponents_split:
  "\<exists>mid. \<forall>paths. versionComponents plat paths cm x = (paths @ mid) @ [versionSalt]"
  by (rule exI[of _ "(case cm of None \<Rightarrow> [] | Some m \<Rightarrow> if m = [] then [] else [m])
     @ (if plat = ''win32'' \<and> \<not> x then [''windows-only''] else [])"]) (simp add: versionComponents_def)

lemma version_inputs_differ:
  assumes "\<forall>p \<in> set paths \<union> set paths'. CHR ''|'' \<notin> set p" "paths \<noteq> paths'"
  shows "joinWith ''|'' (versionComponents plat paths cm x)
           \<noteq> joinWith ''|'' (versionComponents plat paths' cm x)"
proof
  assume eq: "joinWith ''|'' (versionComponents plat paths cm x)
           = joinWith ''|'' (versionComponents plat paths' cm x)"
  obtain mid where mid: "\<And>ps. versionComponents plat ps cm x = (ps @ mid) @ [versionSalt]"
    using versionComponents_split by blast
  from eq have "concat (map (\<lambda>x. x @ ''|'') paths) = concat (map (\<lambda>x. x @ ''|'') paths')"
    unfolding mid joinWith_snoc by simp
  from separated_inj[OF assms(1) this] assms(2) show False by simp
qed

lemma versionComponents_last: "last (versionComponents plat paths cm x) = versionSalt"
  by (simp add: versionComponents_def)

lemma versionComponents_paths: "take (length paths) (versionComponents plat paths cm x) = paths"
  by (simp add: versionComponents_def)

text \<open>
  Claim C4, as the code has it. \<^verbatim>\<open>getCacheVersion\<close> is a function of its arguments
  and the platform: the digest of the components joined with \<^verbatim>\<open>|\<close>, where the
  components are the path selectors in the order given (never sorted or otherwise
  normalised), then the optional tags, and the salt \<^verbatim>\<open>1.0\<close> last. When no selector
  contains \<^verbatim>\<open>|\<close>, two different selector lists, in particular two different
  orderings of the same selectors, give different strings to hash, so their fingerprints
  can only agree where the digest collides.
\<close>

theorem fingerprint_of_ordered_components:
  "getCacheVersion sha256hex plat paths cm x
     = sha256hex (joinWith ''|'' (versionComponents plat paths cm x))
   \<and> take (length paths) (versionComponents plat paths cm x) = paths
   \<and> last (versionComponents plat paths cm x) = versionSalt
   \<and> versionSalt = ''1.0''
   \<and> ((\<forall>p \<in> set paths \<union> set paths'. CHR ''|'' \<notin> set p) \<and> paths \<noteq> paths' \<longrightarrow>
        joinWith ''|'' (versionComponents plat paths cm x)
          \<noteq> joinWith ''|'' (versionComponents plat paths' cm x)
        \<and> (getCacheVersion sha256hex plat paths cm x = getCacheVersion sha256hex plat paths' cm x
             \<longrightarrow> (\<exists>a b. a \<noteq> b \<and> sha256hex a = sha256hex b)))"
proof -
  have d: "joinWith ''|'' (versionComponents plat paths cm x)
          \<noteq> joinWith ''|'' (versionComponents plat paths' cm x)"
    if "\<forall>p \<in> set paths \<union> set paths'. CHR ''|'' \<notin> set p" "paths \<noteq> paths'"
    using that by (rule version_inputs_differ)
  have c: "\<exists>a b. a \<noteq> b \<and> sha256hex a = sha256hex b"
    if "\<forall>p \<in> set paths \<union> set paths'. CHR ''|'' \<notin> set p" "paths \<noteq> paths'"
       "getCacheVersion sha256hex plat paths cm x = getCacheVersion sha256hex plat paths' cm x"
    using d[OF that(1,2)] that(3) unfolding getCacheVersion_def by blast
  show ?thesis
    using d c versionComponents_last versionComponents_paths
    by (simp add: getCacheVersion_def versionSalt_def) 
qed

text \<open>
  Claim C4 as stated fails for selectors that contain the separator: \<^verbatim>\<open>["a", "a|a"]\<close>
  and \<^verbatim>\<open>["a|a", "a"]\<close> are different orderings of the same selectors, both join to
  \<^verbatim>\<open>a|a|a\<close>, and so have the same fingerprint whatever the digest is.
\<close>

theorem fingerprint_same_for_permuted_selectors:
  "[''a'', ''a|a''] \<noteq> [''a|a'', ''a'']
   \<and> mset [''a'', ''a|a''] = mset [''a|a'', ''a'']
   \<and> (\<forall>sha256hex. getCacheVersion sha256hex ''linux'' [''a'', ''a|a''] None False
                   = getCacheVersion sha256hex ''linux'' [''a|a'', ''a''] None False)"
  by (simp add: getCacheVersion_def versionComponents_def)

theorem fingerprint_of_ordered_components_witness:
  "getCacheVersion (\<lambda>s. s) ''win32'' [''src'', ''target''] (Some ''zstd'') False
     = ''src|target|zstd|windows-only|1.0''
   \<and> getCacheVersion (\<lambda>s. s) ''win32'' [''src'', ''target''] (Some ''zstd'') False
       \<noteq> getCacheVersion (\<lambda>s. s) ''win32'' [''target'', ''src''] (Some ''zstd'') False"
proof -
  note T = fingerprint_of_ordered_components
    [where sha256hex = "\<lambda>s. s" and plat = "''win32''" and paths = "[''src'', ''target'']"
       and paths' = "[''target'', ''src'']" and cm = "Some ''zstd''" and x = False]
  have h: "(\<forall>p \<in> set [''src'', ''target''] \<union> set [''target'', ''src'']. CHR ''|'' \<notin> set p)
            \<and> [''src'', ''target''] \<noteq> [''target'', ''src'']" by simp
  have v: "getCacheVersion (\<lambda>s. s) ''win32'' [''src'', ''target''] (Some ''zstd'') False
     = ''src|target|zstd|windows-only|1.0''"
    by (simp add: T[THEN conjunct1] versionComponents_def versionSalt_def)
  from mp[OF T[THEN conjunct2, THEN conjunct2, THEN conjunct2, THEN conjunct2] h]
  have "getCacheVersion (\<lambda>s. s) ''win32'' [''src'', ''target''] (Some ''zstd'') False
          = getCacheVersion (\<lambda>s. s) ''win32'' [''target'', ''src''] (Some ''zstd'') False
        \<longrightarrow> (\<exists>a b :: string. a \<noteq> b \<and> a = b)" by (rule conjunct2)
  then have "getCacheVersion (\<lambda>s. s) ''win32'' [''src'', ''target''] (Some ''zstd'') False
       \<noteq> getCacheVersion (\<lambda>s. s) ''win32'' [''target'', ''src''] (Some ''zstd'') False"
    by blast
  with v show ?thesis by (rule conjI)
qed

section \<open>The most recently modified object\<close>

lemma latestFrom_in_range:
  "index < length contents \<Longrightarrow> latestFrom contents i index t < length contents"
proof (induction contents i index t rule: latestFrom.induct)
  case (1 contents i index t)
  show ?case
  proof (cases "i < length contents")
    case False
    then show ?thesis using "1.prems" by (simp add: latestFrom.simps[of contents i])
  next
    case True
    show ?thesis
    proof (cases "js_gt (LastModified (contents ! i)) t")
      case gt: True
      have "latestFrom contents (i + 1) i (LastModified (contents ! i)) < length contents"
        using "1.IH"(1)[OF True refl gt True] .
      then show ?thesis using True gt by (simp add: latestFrom.simps[of contents i])
    next
      case ngt: False
      have "latestFrom contents (i + 1) index t < length contents"
        using "1.IH"(2)[OF True refl ngt "1.prems"] .
      then show ?thesis using True ngt by (simp add: latestFrom.simps[of contents i])
    qed
  qed
qed

lemma js_gt_Number:
  "a \<noteq> NaN \<Longrightarrow> b \<noteq> NaN \<Longrightarrow> \<not> js_gt a b \<Longrightarrow> \<not> js_gt b a \<Longrightarrow> a = b"
  by (cases a; cases b) auto

lemma js_gt_trans: "js_gt a b \<Longrightarrow> js_gt b c \<Longrightarrow> js_gt a c"
  by (cases a; cases b; cases c) auto

lemma js_gt_le_trans: "a \<noteq> NaN \<Longrightarrow> \<not> js_gt c b \<Longrightarrow> js_gt a b \<Longrightarrow> c \<noteq> NaN \<Longrightarrow> \<not> js_gt c a"
  by (cases a; cases b; cases c) auto

lemma js_le_trans:
  "a \<noteq> NaN \<Longrightarrow> b \<noteq> NaN \<Longrightarrow> c \<noteq> NaN \<Longrightarrow> \<not> js_gt c b \<Longrightarrow> \<not> js_gt b a \<Longrightarrow> \<not> js_gt c a"
  by (cases a; cases b; cases c) auto

lemma js_gt_total: "a \<noteq> NaN \<Longrightarrow> b \<noteq> NaN \<Longrightarrow> \<not> js_gt a b \<Longrightarrow> a \<noteq> b \<Longrightarrow> js_gt b a"
  by (cases a; cases b) auto

lemma latestFrom_first_max:
  "\<forall>obj \<in> set contents. LastModified obj \<noteq> NaN
     \<Longrightarrow> index < i \<Longrightarrow> i \<le> length contents \<Longrightarrow> t = LastModified (contents ! index)
     \<Longrightarrow> \<forall>j < i. \<not> js_gt (LastModified (contents ! j)) t
     \<Longrightarrow> \<forall>j < index. js_gt t (LastModified (contents ! j))
     \<Longrightarrow> (let r = latestFrom contents i index t
          in r < length contents
             \<and> (\<forall>j < length contents.
                   \<not> js_gt (LastModified (contents ! j)) (LastModified (contents ! r)))
             \<and> (\<forall>j < r. js_gt (LastModified (contents ! r)) (LastModified (contents ! j))))"
proof (induction contents i index t rule: latestFrom.induct)
  case (1 contents i index t)
  note P = "1.prems"(2-)
  have valid: "\<And>j. j < length contents \<Longrightarrow> LastModified (contents ! j) \<noteq> NaN"
    using "1.prems"(1) by simp
  show ?case
  proof (cases "i < length contents")
    case False
    then have il: "i = length contents" using P by simp
    have r: "latestFrom contents i index t = index"
      using False by (simp add: latestFrom.simps[of contents i])
    show ?thesis unfolding r Let_def using P il by simp
  next
    case True
    let ?m = "LastModified (contents ! i)"
    show ?thesis
    proof (cases "js_gt ?m t")
      case gt: True
      have a: "\<forall>j < i + 1. \<not> js_gt (LastModified (contents ! j)) ?m"
      proof (intro allI impI)
        fix j assume "j < i + 1"
        show "\<not> js_gt (LastModified (contents ! j)) ?m"
        proof (cases "j = i")
          case True
          then show ?thesis by (cases ?m) auto
        next
          case False
          then have ji: "j < i" using \<open>j < i + 1\<close> by simp
          then have "\<not> js_gt (LastModified (contents ! j)) t" using P(4) by simp
          moreover have "LastModified (contents ! j) \<noteq> NaN" using valid ji True by simp
          ultimately show ?thesis using gt valid[OF True] js_gt_le_trans by blast
        qed
      qed
      have b: "\<forall>j < i. js_gt ?m (LastModified (contents ! j))"
      proof (intro allI impI)
        fix j assume ji: "j < i"
        then have n: "\<not> js_gt (LastModified (contents ! j)) t" using P(4) by simp
        have tv: "t \<noteq> NaN" using P(1,2,3) valid by simp
        have jv: "LastModified (contents ! j) \<noteq> NaN" using valid ji True by simp
        show "js_gt ?m (LastModified (contents ! j))"
          using gt n tv jv by (cases ?m; cases t; cases "LastModified (contents ! j)") auto
      qed
      from "1.IH"(1)[OF True refl gt "1.prems"(1) _ _ refl a b] True
      have "let r = latestFrom contents (i + 1) i ?m
            in r < length contents
             \<and> (\<forall>j < length contents.
                   \<not> js_gt (LastModified (contents ! j)) (LastModified (contents ! r)))
             \<and> (\<forall>j < r. js_gt (LastModified (contents ! r)) (LastModified (contents ! j)))"
        by simp
      then show ?thesis using True gt by (simp add: latestFrom.simps[of contents i])
    next
      case ngt: False
      have a: "\<forall>j < i + 1. \<not> js_gt (LastModified (contents ! j)) t"
        using P(4) ngt by (auto simp: less_Suc_eq)
      from "1.IH"(2)[OF True refl ngt "1.prems"(1) _ _ P(3) a P(5)] True P(1)
      have "let r = latestFrom contents (i + 1) index t
            in r < length contents
             \<and> (\<forall>j < length contents.
                   \<not> js_gt (LastModified (contents ! j)) (LastModified (contents ! r)))
             \<and> (\<forall>j < r. js_gt (LastModified (contents ! r)) (LastModified (contents ! j)))"
        by simp
      then show ?thesis using True ngt by (simp add: latestFrom.simps[of contents i])
    qed
  qed
qed

lemma latest_of_listing:
  assumes "contents \<noteq> []" "\<forall>obj \<in> set contents. LastModified obj \<noteq> NaN"
  shows "let r = latestFrom contents 1 0 (LastModified (contents ! 0))
          in r < length contents
             \<and> (\<forall>j < length contents.
                   \<not> js_gt (LastModified (contents ! j)) (LastModified (contents ! r)))
             \<and> (\<forall>j < r. js_gt (LastModified (contents ! r)) (LastModified (contents ! j)))"
proof (rule latestFrom_first_max[OF assms(2)])
  show "1 \<le> length contents" using assms(1) by (cases contents) auto
  show "\<forall>j<1. \<not> js_gt (LastModified (contents ! j)) (LastModified (contents ! 0))"
    by (cases "LastModified (contents ! 0)") auto
qed simp_all

section \<open>Restore keys\<close>

lemma tryRestoreKey_error:
  "listObjectsType2 client (bucket env) (location env (Some key)) 100 = Inl err \<Longrightarrow>
     tryRestoreKey env client version key
       = (ListRequest (bucket env) (location env (Some key)) 100 #
          Warn (''an error occurred when trying to find cache with restore key ''
                  @ location env (Some key)) #
          handleError err, None)"
  by (simp add: tryRestoreKey_def Let_def)

lemma tryRestoreKey_empty:
  "listObjectsType2 client (bucket env) (location env (Some key)) 100 = Inr [] \<Longrightarrow>
     tryRestoreKey env client version key
       = ([ListRequest (bucket env) (location env (Some key)) 100,
           Warn (''Unable to find cache with restore key '' @ location env (Some key) @ ''.'')],
          None)"
  by (simp add: tryRestoreKey_def Let_def)

lemma tryRestoreKey_found:
  "listObjectsType2 client (bucket env) (location env (Some key)) 100 = Inr contents \<Longrightarrow>
     contents \<noteq> [] \<Longrightarrow>
     tryRestoreKey env client version key
       = ([ListRequest (bucket env) (location env (Some key)) 100],
          Some \<lparr>cacheKey = Some (Key (contents ! latestFrom contents 1 0 (LastModified (contents ! 0)))),
                 cacheVersion = Some version,
                 objectKey = Some (Key (contents ! latestFrom contents 1 0 (LastModified (contents ! 0))))\<rparr>)"
  by (simp add: tryRestoreKey_def Let_def)

lemma listRequests_simps:
  "listRequests [] = []"
  "listRequests (ListRequest b p m # evs) = ListRequest b p m # listRequests evs"
  "listRequests (Warn w # evs) = listRequests evs"
  "listRequests (Log l v # evs) = listRequests evs"
  "listRequests (HeadRequest b k # evs) = listRequests evs"
  "listRequests (evs @ evs') = listRequests evs @ listRequests evs'"
  by (simp_all add: listRequests_def)

lemma listRequests_handleError: "listRequests (handleError err) = []"
  by (cases err) (simp_all add: handleError_def listRequests_def)

text \<open>A restore key that is passed over: its listing fails or is empty.\<close>

lemma tryRestoreKey_skipped:
  assumes "case listObjectsType2 client (bucket env) (location env (Some key)) 100 of
             Inl err \<Rightarrow> True | Inr contents \<Rightarrow> contents = []"
  shows "snd (tryRestoreKey env client version key) = None"
    and "listRequests (fst (tryRestoreKey env client version key))
           = [ListRequest (bucket env) (location env (Some key)) 100]"
  using assms
  by (auto simp: tryRestoreKey_error tryRestoreKey_empty listRequests_simps listRequests_handleError
           split: sum.splits)

lemma restore_skips:
  assumes "\<forall>k \<in> set skipped.
             case listObjectsType2 client (bucket env) (location env (Some k)) 100 of
               Inl err \<Rightarrow> True | Inr contents \<Rightarrow> contents = []"
  shows "snd (getRestoreKeysCacheEntry env client version (skipped @ rest))
           = snd (getRestoreKeysCacheEntry env client version rest)
         \<and> listRequests (fst (getRestoreKeysCacheEntry env client version (skipped @ rest)))
           = map (\<lambda>k. ListRequest (bucket env) (location env (Some k)) 100) skipped
             @ listRequests (fst (getRestoreKeysCacheEntry env client version rest))"
  using assms
proof (induction skipped)
  case Nil
  then show ?case by simp
next
  case (Cons k skipped)
  have sk: "case listObjectsType2 client (bucket env) (location env (Some k)) 100 of
             Inl err \<Rightarrow> True | Inr contents \<Rightarrow> contents = []"
    using Cons.prems by simp
  obtain evs where t: "tryRestoreKey env client version k = (evs, None)"
    using tryRestoreKey_skipped(1)[OF sk, of version]
    by (cases "tryRestoreKey env client version k") auto
  have l: "listRequests evs = [ListRequest (bucket env) (location env (Some k)) 100]"
    using tryRestoreKey_skipped(2)[OF sk, of version] t by simp
  from Cons.IH Cons.prems show ?case
    by (simp add: t after_def listRequests_simps l)
qed

lemma restore_never_raises:
  "\<exists>r. snd (getRestoreKeysCacheEntry env client version restoreKeys) = Inr r"
proof (induction restoreKeys)
  case Nil
  then show ?case by simp
next
  case (Cons k ks)
  then show ?case
    by (cases "tryRestoreKey env client version k") (auto simp: after_def split: option.splits)
qed

lemma restore_requests_and_selection:
  "(\<forall>ev \<in> set (fst (getRestoreKeysCacheEntry env client version restoreKeys)).
      \<forall>b p m. ev = ListRequest b p m \<longrightarrow>
        m = 100 \<and> b = bucket env \<and> (\<exists>k \<in> set restoreKeys. p = location env (Some k)))
   \<and> (\<forall>e. snd (getRestoreKeysCacheEntry env client version restoreKeys) = Inr (Some e) \<longrightarrow>
        (\<exists>k \<in> set restoreKeys. \<exists>contents.
            listObjectsType2 client (bucket env) (location env (Some k)) 100 = Inr contents
            \<and> (\<exists>obj \<in> set contents.
                  e = \<lparr>cacheKey = Some (Key obj), cacheVersion = Some version,
                        objectKey = Some (Key obj)\<rparr>)))"
proof (induction restoreKeys)
  case Nil
  then show ?case by simp
next
  case (Cons k ks)
  let ?l = "listObjectsType2 client (bucket env) (location env (Some k)) 100"
  have noList: "\<And>err b p m. ListRequest b p m \<notin> set (handleError err)"
    by (auto simp: handleError_def split: error.splits)
  show ?case
  proof (cases ?l)
    case (Inl err)
    from Cons.IH show ?thesis
      using noList by (auto simp: tryRestoreKey_error[OF Inl] after_def)
  next
    case (Inr contents)
    show ?thesis
    proof (cases "contents = []")
      case True
      from Cons.IH show ?thesis
        by (auto simp: tryRestoreKey_empty[OF Inr[unfolded True]] after_def)
    next
      case False
      let ?r = "latestFrom contents 1 0 (LastModified (contents ! 0))"
      have "?r < length contents"
        using False by (intro latestFrom_in_range) simp
      then have "contents ! ?r \<in> set contents" by simp
      then show ?thesis
        using Inr by (auto simp: tryRestoreKey_found[OF Inr False])
    qed
  qed
qed

section \<open>Resolution and save\<close>

text \<open>
  Claim C5. Restore keys are tried in the order supplied. A key whose listing is empty
  (or fails) is passed over. The first key whose listing has objects decides: among its
  objects, taken to have readable timestamps, the one returned has the greatest
  timestamp and is the earliest listed with it, and it is returned at once: the listings
  requested are those of the keys up to this one and of no later key.
\<close>

theorem restore_key_picks_latest_of_first_match:
  "(\<forall>k \<in> set skipped.
       case listObjectsType2 client (bucket env) (location env (Some k)) 100 of
         Inl err \<Rightarrow> True | Inr listed \<Rightarrow> listed = [])
   \<and> listObjectsType2 client (bucket env) (location env (Some key)) 100 = Inr contents
   \<and> contents \<noteq> []
   \<and> (\<forall>obj \<in> set contents. LastModified obj \<noteq> NaN)
   \<longrightarrow>
   (\<exists>r < length contents.
       snd (getRestoreKeysCacheEntry env client version (skipped @ key # later))
         = Inr (Some \<lparr>cacheKey = Some (Key (contents ! r)), cacheVersion = Some version,
                       objectKey = Some (Key (contents ! r))\<rparr>)
       \<and> (\<forall>j < length contents.
             \<not> js_gt (LastModified (contents ! j)) (LastModified (contents ! r)))
       \<and> (\<forall>j < r. js_gt (LastModified (contents ! r)) (LastModified (contents ! j)))
       \<and> listRequests (fst (getRestoreKeysCacheEntry env client version (skipped @ key # later)))
           = map (\<lambda>k. ListRequest (bucket env) (location env (Some k)) 100) (skipped @ [key]))"
proof (intro impI, elim conjE)
  assume sk: "\<forall>k \<in> set skipped.
       case listObjectsType2 client (bucket env) (location env (Some k)) 100 of
         Inl err \<Rightarrow> True | Inr listed \<Rightarrow> listed = []"
    and l: "listObjectsType2 client (bucket env) (location env (Some key)) 100 = Inr contents"
    and ne: "contents \<noteq> []"
    and valid: "\<forall>obj \<in> set contents. LastModified obj \<noteq> NaN"
  let ?r = "latestFrom contents 1 0 (LastModified (contents ! 0))"
  note S = restore_skips[OF sk, of version "key # later"]
  note F = tryRestoreKey_found[OF l ne, of version]
  have here: "getRestoreKeysCacheEntry env client version (key # later)
     = ([ListRequest (bucket env) (location env (Some key)) 100],
        Inr (Some \<lparr>cacheKey = Some (Key (contents ! ?r)), cacheVersion = Some version,
                    objectKey = Some (Key (contents ! ?r))\<rparr>))"
    by (simp add: F)
  from latest_of_listing[OF ne valid]
  have r: "?r < length contents"
    and mx: "\<forall>j < length contents.
             \<not> js_gt (LastModified (contents ! j)) (LastModified (contents ! ?r))"
    and fst: "\<forall>j < ?r. js_gt (LastModified (contents ! ?r)) (LastModified (contents ! j))"
    by (simp_all add: Let_def)
  have res: "snd (getRestoreKeysCacheEntry env client version (skipped @ key # later))
         = Inr (Some \<lparr>cacheKey = Some (Key (contents ! ?r)), cacheVersion = Some version,
                       objectKey = Some (Key (contents ! ?r))\<rparr>)"
    using S here by simp
  have reqs: "listRequests (fst (getRestoreKeysCacheEntry env client version (skipped @ key # later)))
           = map (\<lambda>k. ListRequest (bucket env) (location env (Some k)) 100) (skipped @ [key])"
    using S here by (simp add: listRequests_simps)
  show "\<exists>r < length contents.
       snd (getRestoreKeysCacheEntry env client version (skipped @ key # later))
         = Inr (Some \<lparr>cacheKey = Some (Key (contents ! r)), cacheVersion = Some version,
                       objectKey = Some (Key (contents ! r))\<rparr>)
       \<and> (\<forall>j < length contents.
             \<not> js_gt (LastModified (contents ! j)) (LastModified (contents ! r)))
       \<and> (\<forall>j < r. js_gt (LastModified (contents ! r)) (LastModified (contents ! j)))
       \<and> listRequests (fst (getRestoreKeysCacheEntry env client version (skipped @ key # later)))
           = map (\<lambda>k. ListRequest (bucket env) (location env (Some k)) 100) (skipped @ [key])"
    using r res mx fst reqs by (intro exI[of _ ?r]) blast
qed

text \<open>
  Claim C9. Every listing \<^verbatim>\<open>getRestoreKeysCacheEntry\<close> requests is for one of the
  restore keys and asks for at most 100 objects (\<^verbatim>\<open>maxKeys: 100\<close>), and an entry it
  returns is built from an object of the list the backend returned for such a request:
  an object that is not in the returned page cannot be selected.
\<close>

theorem listing_page_bounds_selection:
  "(\<forall>ev \<in> set (fst (getRestoreKeysCacheEntry env client version restoreKeys)).
      \<forall>b p m. ev = ListRequest b p m \<longrightarrow>
        m = 100 \<and> b = bucket env \<and> (\<exists>k \<in> set restoreKeys. p = location env (Some k)))
   \<and> (\<forall>e. snd (getRestoreKeysCacheEntry env client version restoreKeys) = Inr (Some e) \<longrightarrow>
        (\<exists>k \<in> set restoreKeys. \<exists>contents.
            listObjectsType2 client (bucket env) (location env (Some k)) 100 = Inr contents
            \<and> (\<exists>obj \<in> set contents.
                  e = \<lparr>cacheKey = Some (Key obj), cacheVersion = Some version,
                        objectKey = Some (Key obj)\<rparr>)))"
  by (rule restore_requests_and_selection)

lemma primary_hit:
  "headObject client (bucket env) (location env primaryKey) = Inr u \<Longrightarrow>
     getPrimaryKeyCacheEntry env client version primaryKey
       = ([HeadRequest (bucket env) (location env primaryKey)],
          Inr (Some \<lparr>cacheKey = primaryKey, cacheVersion = Some version,
                      objectKey = Some (location env primaryKey)\<rparr>))"
  by (simp add: getPrimaryKeyCacheEntry_def Let_def)

lemma primary_miss:
  "headObject client (bucket env) (location env primaryKey) = Inl err \<Longrightarrow>
     getPrimaryKeyCacheEntry env client version primaryKey
       = (HeadRequest (bucket env) (location env primaryKey) #
            (if isNotFound err
             then [Warn (''Unable to find cache with primary key: ''
                           @ location env primaryKey @ ''.'')]
             else []),
          Inr None)"
  by (simp add: getPrimaryKeyCacheEntry_def Let_def)

lemma getCacheEntry_hit:
  "headObject client (bucket env) (location env (firstKey keys)) = Inr u \<Longrightarrow>
     snd (getCacheEntry env sha256hex client keys paths options)
       = Inr (Some \<lparr>cacheKey = firstKey keys,
                     cacheVersion = Some (versionOf env sha256hex paths options),
                     objectKey = Some (location env (firstKey keys))\<rparr>)"
  by (simp add: getCacheEntry_def Let_def primary_hit)

lemma getCacheEntry_fallthrough:
  "headObject client (bucket env) (location env (firstKey keys)) = Inl err \<Longrightarrow>
     snd (getCacheEntry env sha256hex client keys paths options)
       = (case snd (getRestoreKeysCacheEntry env client (versionOf env sha256hex paths options)
                      (drop 1 keys)) of
            Inr (Some e) \<Rightarrow> Inr (Some e)
          | Inr None \<Rightarrow> Inr (Some \<lparr>cacheKey = None,
                          cacheVersion = Some (versionOf env sha256hex paths options),
                          objectKey = None\<rparr>)
          | Inl x \<Rightarrow> Inl x)"
  by (cases "getRestoreKeysCacheEntry env client (versionOf env sha256hex paths options) (drop 1 keys)")
     (auto simp: getCacheEntry_def Let_def primary_miss split: sum.splits option.splits)

lemma getCacheEntry_returns:
  "\<exists>entry. snd (getCacheEntry env sha256hex client keys paths options) = Inr (Some entry)"
proof (cases "headObject client (bucket env) (location env (firstKey keys))")
  case (Inr u)
  then show ?thesis by (simp add: getCacheEntry_hit)
next
  case (Inl err)
  obtain r where "snd (getRestoreKeysCacheEntry env client (versionOf env sha256hex paths options)
                      (drop 1 keys)) = Inr r"
    using restore_never_raises by blast
  then show ?thesis by (cases r) (simp_all add: getCacheEntry_fallthrough[OF Inl])
qed

text \<open>
  Claim C7. \<^verbatim>\<open>getCacheEntry\<close> always returns an entry and never raises. When the probe
  of the primary key fails, with "not found" (status 404, which is also logged as a
  warning) or with any other error, \<^verbatim>\<open>getPrimaryKeyCacheEntry\<close> returns \<^verbatim>\<open>null\<close> and the
  restore keys are tried; when these give nothing either, the result is the entry that
  carries the computed \<open>cacheVersion\<close> only, with neither \<open>cacheKey\<close> nor \<open>objectKey\<close>.
\<close>

theorem resolution_swallows_not_found_and_returns_miss:
  "(\<exists>entry. snd (getCacheEntry env sha256hex client keys paths options) = Inr (Some entry))
   \<and> (headObject client (bucket env) (location env (firstKey keys)) = Inl err \<longrightarrow>
        getPrimaryKeyCacheEntry env client (versionOf env sha256hex paths options) (firstKey keys)
          = (HeadRequest (bucket env) (location env (firstKey keys)) #
               (if isNotFound err
                then [Warn (''Unable to find cache with primary key: ''
                              @ location env (firstKey keys) @ ''.'')]
                else []),
             Inr None)
        \<and> (\<forall>e. snd (getRestoreKeysCacheEntry env client (versionOf env sha256hex paths options)
                       (drop 1 keys)) = Inr (Some e) \<longrightarrow>
                snd (getCacheEntry env sha256hex client keys paths options) = Inr (Some e))
        \<and> (snd (getRestoreKeysCacheEntry env client (versionOf env sha256hex paths options)
                  (drop 1 keys)) = Inr None \<longrightarrow>
             snd (getCacheEntry env sha256hex client keys paths options)
               = Inr (Some \<lparr>cacheKey = None,
                             cacheVersion = Some (versionOf env sha256hex paths options),
                             objectKey = None\<rparr>)))
   \<and> isNotFound (TosServerError nfe) = (statusCode nfe = 404)"
proof -
  have a: "\<exists>entry. snd (getCacheEntry env sha256hex client keys paths options) = Inr (Some entry)"
    by (rule getCacheEntry_returns)
  have b: "getPrimaryKeyCacheEntry env client (versionOf env sha256hex paths options) (firstKey keys)
          = (HeadRequest (bucket env) (location env (firstKey keys)) #
               (if isNotFound err
                then [Warn (''Unable to find cache with primary key: ''
                              @ location env (firstKey keys) @ ''.'')]
                else []),
             Inr None)"
    if "headObject client (bucket env) (location env (firstKey keys)) = Inl err"
    using that by (rule primary_miss)
  have c: "snd (getCacheEntry env sha256hex client keys paths options) = Inr (Some e)"
    if "headObject client (bucket env) (location env (firstKey keys)) = Inl err"
       "snd (getRestoreKeysCacheEntry env client (versionOf env sha256hex paths options)
                       (drop 1 keys)) = Inr (Some e)" for e
    using that by (simp add: getCacheEntry_fallthrough)
  have d: "snd (getCacheEntry env sha256hex client keys paths options)
               = Inr (Some \<lparr>cacheKey = None,
                             cacheVersion = Some (versionOf env sha256hex paths options),
                             objectKey = None\<rparr>)"
    if "headObject client (bucket env) (location env (firstKey keys)) = Inl err"
       "snd (getRestoreKeysCacheEntry env client (versionOf env sha256hex paths options)
                  (drop 1 keys)) = Inr None"
    using that by (simp add: getCacheEntry_fallthrough)
  have e: "isNotFound (TosServerError nfe) = (statusCode nfe = 404)"
    by (simp add: isNotFound_def)
  show ?thesis using a b c d e by blast
qed

text \<open>
  Claim C10. On a hit of the primary key, \<open>cacheKey\<close> is the key as given and \<open>objectKey\<close>
  is \<^verbatim>\<open>caches/<repository>/<key>\<close>, and the two differ. On a hit of a restore key,
  \<open>cacheKey\<close> and \<open>objectKey\<close> are the same string, the \<open>Key\<close> of a listed object; when the
  listing only has objects under the prefix it was asked for, that string starts with
  \<^verbatim>\<open>caches/<repository>/\<close>.
\<close>

theorem cacheKey_bare_on_primary_hit_full_on_restore_hit:
  "(headObject client (bucket env) (location env (Some k)) = Inr u \<longrightarrow>
      snd (getCacheEntry env sha256hex client (k # rest) paths options)
        = Inr (Some \<lparr>cacheKey = Some k,
                      cacheVersion = Some (versionOf env sha256hex paths options),
                      objectKey = Some (''caches/'' @ template (repo env) @ ''/'' @ k)\<rparr>)
      \<and> k \<noteq> ''caches/'' @ template (repo env) @ ''/'' @ k)
   \<and> (headObject client (bucket env) (location env (Some k)) = Inl err
        \<and> snd (getRestoreKeysCacheEntry env client (versionOf env sha256hex paths options) rest)
            = Inr (Some e) \<longrightarrow>
        snd (getCacheEntry env sha256hex client (k # rest) paths options) = Inr (Some e)
        \<and> cacheKey e = objectKey e
        \<and> (\<exists>kr \<in> set rest. \<exists>contents.
              listObjectsType2 client (bucket env) (location env (Some kr)) 100 = Inr contents
              \<and> (\<exists>obj \<in> set contents. objectKey e = Some (Key obj))
              \<and> ((\<forall>obj \<in> set contents.
                      take (length (location env (Some kr))) (Key obj) = location env (Some kr))
                   \<longrightarrow> (\<exists>full. objectKey e = Some full
                          \<and> take (length (''caches/'' @ template (repo env) @ ''/'')) full
                              = ''caches/'' @ template (repo env) @ ''/''))))"
proof -
  have fk: "firstKey (k # rest) = Some k" by (simp add: firstKey_def)
  have loc: "location env (Some k) = ''caches/'' @ template (repo env) @ ''/'' @ k"
    by (simp add: location_def template_def)
  have a: "snd (getCacheEntry env sha256hex client (k # rest) paths options)
        = Inr (Some \<lparr>cacheKey = Some k,
                      cacheVersion = Some (versionOf env sha256hex paths options),
                      objectKey = Some (''caches/'' @ template (repo env) @ ''/'' @ k)\<rparr>)"
    if "headObject client (bucket env) (location env (Some k)) = Inr u"
    using getCacheEntry_hit[of client env "k # rest" u sha256hex paths options] that
    by (simp add: fk loc)
  have b: "k \<noteq> ''caches/'' @ template (repo env) @ ''/'' @ k"
  proof
    assume "k = ''caches/'' @ template (repo env) @ ''/'' @ k"
    then have "length k = length (''caches/'' @ template (repo env) @ ''/'' @ k)" by simp
    then show False by simp
  qed
  have c: "snd (getCacheEntry env sha256hex client (k # rest) paths options) = Inr (Some e)
        \<and> cacheKey e = objectKey e
        \<and> (\<exists>kr \<in> set rest. \<exists>contents.
              listObjectsType2 client (bucket env) (location env (Some kr)) 100 = Inr contents
              \<and> (\<exists>obj \<in> set contents. objectKey e = Some (Key obj))
              \<and> ((\<forall>obj \<in> set contents.
                      take (length (location env (Some kr))) (Key obj) = location env (Some kr))
                   \<longrightarrow> (\<exists>full. objectKey e = Some full
                          \<and> take (length (''caches/'' @ template (repo env) @ ''/'')) full
                              = ''caches/'' @ template (repo env) @ ''/'')))"
    if h: "headObject client (bucket env) (location env (Some k)) = Inl err"
      and r: "snd (getRestoreKeysCacheEntry env client (versionOf env sha256hex paths options) rest)
            = Inr (Some e)"
  proof -
    let ?v = "versionOf env sha256hex paths options"
    have g: "snd (getCacheEntry env sha256hex client (k # rest) paths options) = Inr (Some e)"
      using getCacheEntry_fallthrough[of client env "k # rest" err sha256hex paths options] h r
      by (simp add: fk)
    from restore_requests_and_selection[of env client ?v rest] r
    obtain kr contents obj where kr: "kr \<in> set rest"
      and l: "listObjectsType2 client (bucket env) (location env (Some kr)) 100 = Inr contents"
      and obj: "obj \<in> set contents"
      and e: "e = \<lparr>cacheKey = Some (Key obj), cacheVersion = Some ?v, objectKey = Some (Key obj)\<rparr>"
      by blast
    have pre: "\<exists>full. objectKey e = Some full
                 \<and> take (length (''caches/'' @ template (repo env) @ ''/'')) full
                     = ''caches/'' @ template (repo env) @ ''/''"
      if "\<forall>obj \<in> set contents.
            take (length (location env (Some kr))) (Key obj) = location env (Some kr)"
    proof -
      let ?p = "''caches/'' @ template (repo env) @ ''/''"
      have t: "take (length (?p @ kr)) (Key obj) = ?p @ kr"
        using that obj by (simp add: location_def template_def)
      have "take (length ?p) (take (length (?p @ kr)) (Key obj)) = take (length ?p) (?p @ kr)"
        by (simp only: t)
      then have "take (length ?p) (Key obj) = ?p"
        by (simp add: min_def)
      then show ?thesis by (simp add: e)
    qed
    show ?thesis using g kr l obj pre by (auto simp: e)
  qed
  show ?thesis using a b c by blast
qed





theorem resolution_swallows_not_found_and_returns_miss_witness:
  "snd (getCacheEntry \<lparr>bucket = Some ''bk'', repo = Some ''o/r'', platform = ''linux''\<rparr>
          (\<lambda>s. s)
          \<lparr>headObject = (\<lambda>b k. Inl (TosServerError
              \<lparr>requestId = ''req-2'', statusCode = 404, headers = [],
               code = ''NoSuchKey'', message = ''not found''\<rparr>)),
           listObjectsType2 = (\<lambda>b p m. Inr []),
           putObjectFromFile = (\<lambda>b k f. Inr ())\<rparr>
          [''k'', ''r1''] [''p''] None)
     = Inr (Some \<lparr>cacheKey = None, cacheVersion = Some ''p|1.0'', objectKey = None\<rparr>)
   \<and> getPrimaryKeyCacheEntry \<lparr>bucket = Some ''bk'', repo = Some ''o/r'', platform = ''linux''\<rparr>
          \<lparr>headObject = (\<lambda>b k. Inl (TosServerError
              \<lparr>requestId = ''req-2'', statusCode = 404, headers = [],
               code = ''NoSuchKey'', message = ''not found''\<rparr>)),
           listObjectsType2 = (\<lambda>b p m. Inr []),
           putObjectFromFile = (\<lambda>b k f. Inr ())\<rparr>
          ''p|1.0'' (Some ''k'')
     = ([HeadRequest (Some ''bk'') ''caches/o/r/k'',
         Warn ''Unable to find cache with primary key: caches/o/r/k.''], Inr None)"
proof -
  let ?env = "\<lparr>bucket = Some ''bk'', repo = Some ''o/r'', platform = ''linux''\<rparr>"
  let ?e = "\<lparr>requestId = ''req-2'', statusCode = 404, headers = [],
               code = ''NoSuchKey'', message = ''not found''\<rparr>"
  let ?client = "\<lparr>headObject = (\<lambda>b k. Inl (TosServerError ?e)),
           listObjectsType2 = (\<lambda>b p m. Inr []),
           putObjectFromFile = (\<lambda>b k f. Inr ())\<rparr>"
  note T = resolution_swallows_not_found_and_returns_miss
      [where env = ?env and client = ?client and sha256hex = "\<lambda>s. s" and keys = "[''k'', ''r1'']"
         and paths = "[''p'']" and options = None and err = "TosServerError ?e" and nfe = ?e]
  have v: "versionOf ?env (\<lambda>s. s) [''p''] None = ''p|1.0''"
    by (simp add: versionOf_def getCacheVersion_def versionComponents_def versionSalt_def)
  have fk: "firstKey [''k'', ''r1''] = Some ''k''" by (simp add: firstKey_def)
  have loc: "location ?env (Some ''k'') = ''caches/o/r/k''"
    by (simp add: location_def template_def)
  have h: "headObject ?client (bucket ?env) (location ?env (firstKey [''k'', ''r1'']))
             = Inl (TosServerError ?e)" by simp
  have r: "snd (getRestoreKeysCacheEntry ?env ?client (versionOf ?env (\<lambda>s. s) [''p''] None)
                  (drop 1 [''k'', ''r1''])) = Inr None"
    by (simp add: tryRestoreKey_def Let_def after_def)
  note U = mp[OF T[THEN conjunct2, THEN conjunct1] h]
  have nf: "isNotFound (TosServerError ?e)"
    by (simp add: T[THEN conjunct2, THEN conjunct2])
  have a: "snd (getCacheEntry ?env (\<lambda>s. s) ?client [''k'', ''r1''] [''p''] None)
     = Inr (Some \<lparr>cacheKey = None, cacheVersion = Some ''p|1.0'', objectKey = None\<rparr>)"
    using mp[OF U[THEN conjunct2, THEN conjunct2] r] by (simp only: v)
  have b: "getPrimaryKeyCacheEntry ?env ?client ''p|1.0'' (Some ''k'')
     = ([HeadRequest (Some ''bk'') ''caches/o/r/k'',
         Warn ''Unable to find cache with primary key: caches/o/r/k.''], Inr None)"
    using U[THEN conjunct1] nf by (simp add: v fk loc)
  show ?thesis by (rule conjI[OF a b])
qed

theorem restore_key_picks_latest_of_first_match_witness:
  "snd (getRestoreKeysCacheEntry \<lparr>bucket = Some ''bk'', repo = Some ''o/r'', platform = ''linux''\<rparr>
          \<lparr>headObject = (\<lambda>b k. Inr ()),
           listObjectsType2 = (\<lambda>b p m.
              if p = ''caches/o/r/build-b''
              then Inr [\<lparr>Key = ''caches/o/r/build-b-1'', LastModified = Number 5\<rparr>,
                        \<lparr>Key = ''caches/o/r/build-b-2'', LastModified = Number 9\<rparr>,
                        \<lparr>Key = ''caches/o/r/build-b-3'', LastModified = Number 9\<rparr>]
              else Inr []),
           putObjectFromFile = (\<lambda>b k f. Inr ())\<rparr>
          ''v'' [''build-a'', ''build-b'', ''build-c''])
     = Inr (Some \<lparr>cacheKey = Some ''caches/o/r/build-b-2'', cacheVersion = Some ''v'',
                   objectKey = Some ''caches/o/r/build-b-2''\<rparr>)
   \<and> listRequests (fst (getRestoreKeysCacheEntry
          \<lparr>bucket = Some ''bk'', repo = Some ''o/r'', platform = ''linux''\<rparr>
          \<lparr>headObject = (\<lambda>b k. Inr ()),
           listObjectsType2 = (\<lambda>b p m.
              if p = ''caches/o/r/build-b''
              then Inr [\<lparr>Key = ''caches/o/r/build-b-1'', LastModified = Number 5\<rparr>,
                        \<lparr>Key = ''caches/o/r/build-b-2'', LastModified = Number 9\<rparr>,
                        \<lparr>Key = ''caches/o/r/build-b-3'', LastModified = Number 9\<rparr>]
              else Inr []),
           putObjectFromFile = (\<lambda>b k f. Inr ())\<rparr>
          ''v'' [''build-a'', ''build-b'', ''build-c'']))
     = [ListRequest (Some ''bk'') ''caches/o/r/build-a'' 100,
        ListRequest (Some ''bk'') ''caches/o/r/build-b'' 100]"
proof -
  let ?env = "\<lparr>bucket = Some ''bk'', repo = Some ''o/r'', platform = ''linux''\<rparr>"
  let ?contents = "[\<lparr>Key = ''caches/o/r/build-b-1'', LastModified = Number 5\<rparr>,
                    \<lparr>Key = ''caches/o/r/build-b-2'', LastModified = Number 9\<rparr>,
                    \<lparr>Key = ''caches/o/r/build-b-3'', LastModified = Number 9\<rparr>]"
  let ?client = "\<lparr>headObject = (\<lambda>b k. Inr ()),
           listObjectsType2 = (\<lambda>b p m. if p = ''caches/o/r/build-b'' then Inr ?contents else Inr []),
           putObjectFromFile = (\<lambda>b k f. Inr ())\<rparr>"
  let ?run = "getRestoreKeysCacheEntry ?env ?client ''v'' ([''build-a''] @ ''build-b'' # [''build-c''])"
  note T = restore_key_picks_latest_of_first_match
      [where env = ?env and client = ?client and version = "''v''" and skipped = "[''build-a'']"
         and key = "''build-b''" and later = "[''build-c'']" and contents = ?contents]
  have h: "(\<forall>k \<in> set [''build-a''].
       case listObjectsType2 ?client (bucket ?env) (location ?env (Some k)) 100 of
         Inl err \<Rightarrow> True | Inr listed \<Rightarrow> listed = [])
   \<and> listObjectsType2 ?client (bucket ?env) (location ?env (Some ''build-b'')) 100 = Inr ?contents
   \<and> ?contents \<noteq> []
   \<and> (\<forall>obj \<in> set ?contents. LastModified obj \<noteq> NaN)"
    by (simp add: location_def template_def)
  from mp[OF T h] obtain r where r: "r < length ?contents"
    and res: "snd ?run = Inr (Some \<lparr>cacheKey = Some (Key (?contents ! r)), cacheVersion = Some ''v'',
                       objectKey = Some (Key (?contents ! r))\<rparr>)"
    and mx: "\<forall>j < length ?contents.
             \<not> js_gt (LastModified (?contents ! j)) (LastModified (?contents ! r))"
    and first: "\<forall>j < r. js_gt (LastModified (?contents ! r)) (LastModified (?contents ! j))"
    and reqs: "listRequests (fst ?run)
           = map (\<lambda>k. ListRequest (bucket ?env) (location ?env (Some k)) 100)
               ([''build-a''] @ [''build-b''])"
    by blast
  from r have "r = 0 \<or> r = 1 \<or> r = 2" by auto
  then have "r = 1"
  proof (elim disjE)
    assume "r = 0"
    have "(1::nat) < length ?contents" by simp
    with mx have "\<not> js_gt (LastModified (?contents ! 1)) (LastModified (?contents ! r))" by blast
    then show ?thesis using \<open>r = 0\<close> by simp
  next
    assume "r = 1" then show ?thesis .
  next
    assume "r = 2"
    then have "(1::nat) < r" by simp
    with first have "js_gt (LastModified (?contents ! r)) (LastModified (?contents ! 1))" by blast
    then show ?thesis using \<open>r = 2\<close> by simp
  qed
  with res have a: "snd ?run = Inr (Some \<lparr>cacheKey = Some ''caches/o/r/build-b-2'',
                       cacheVersion = Some ''v'', objectKey = Some ''caches/o/r/build-b-2''\<rparr>)"
    by simp
  from reqs have b: "listRequests (fst ?run)
     = [ListRequest (Some ''bk'') ''caches/o/r/build-a'' 100,
        ListRequest (Some ''bk'') ''caches/o/r/build-b'' 100]"
    by (simp add: location_def template_def)
  from a b show ?thesis by simp
qed

theorem cacheKey_bare_on_primary_hit_full_on_restore_hit_witness:
  "snd (getCacheEntry \<lparr>bucket = Some ''bk'', repo = Some ''o/r'', platform = ''linux''\<rparr>
          (\<lambda>s. s)
          \<lparr>headObject = (\<lambda>b k. if k = ''caches/o/r/hit'' then Inr () else Inl (Thrown ''nf'')),
           listObjectsType2 = (\<lambda>b p m.
              if p = ''caches/o/r/build-b''
              then Inr [\<lparr>Key = ''caches/o/r/build-b-1'', LastModified = Number 5\<rparr>]
              else Inr []),
           putObjectFromFile = (\<lambda>b k f. Inr ())\<rparr>
          [''hit'', ''build-b''] [''p''] None)
     = Inr (Some \<lparr>cacheKey = Some ''hit'', cacheVersion = Some ''p|1.0'',
                   objectKey = Some ''caches/o/r/hit''\<rparr>)
   \<and> snd (getCacheEntry \<lparr>bucket = Some ''bk'', repo = Some ''o/r'', platform = ''linux''\<rparr>
          (\<lambda>s. s)
          \<lparr>headObject = (\<lambda>b k. if k = ''caches/o/r/hit'' then Inr () else Inl (Thrown ''nf'')),
           listObjectsType2 = (\<lambda>b p m.
              if p = ''caches/o/r/build-b''
              then Inr [\<lparr>Key = ''caches/o/r/build-b-1'', LastModified = Number 5\<rparr>]
              else Inr []),
           putObjectFromFile = (\<lambda>b k f. Inr ())\<rparr>
          [''miss'', ''build-b''] [''p''] None)
     = Inr (Some \<lparr>cacheKey = Some ''caches/o/r/build-b-1'', cacheVersion = Some ''p|1.0'',
                   objectKey = Some ''caches/o/r/build-b-1''\<rparr>)"
proof -
  let ?env = "\<lparr>bucket = Some ''bk'', repo = Some ''o/r'', platform = ''linux''\<rparr>"
  let ?client = "\<lparr>headObject = (\<lambda>b k. if k = ''caches/o/r/hit'' then Inr () else Inl (Thrown ''nf'')),
           listObjectsType2 = (\<lambda>b p m.
              if p = ''caches/o/r/build-b''
              then Inr [\<lparr>Key = ''caches/o/r/build-b-1'', LastModified = Number 5\<rparr>]
              else Inr []),
           putObjectFromFile = (\<lambda>b k f. Inr ())\<rparr>"
  let ?e = "\<lparr>cacheKey = Some ''caches/o/r/build-b-1'', cacheVersion = Some ''p|1.0'',
                   objectKey = Some ''caches/o/r/build-b-1''\<rparr>"
  note H = cacheKey_bare_on_primary_hit_full_on_restore_hit
      [where env = ?env and client = ?client and sha256hex = "\<lambda>s. s" and k = "''hit''"
         and rest = "[''build-b'']" and paths = "[''p'']" and options = None and u = "()"
         and err = "Thrown ''nf''" and e = ?e]
  note M = cacheKey_bare_on_primary_hit_full_on_restore_hit
      [where env = ?env and client = ?client and sha256hex = "\<lambda>s. s" and k = "''miss''"
         and rest = "[''build-b'']" and paths = "[''p'']" and options = None and u = "()"
         and err = "Thrown ''nf''" and e = ?e]
  have v: "versionOf ?env (\<lambda>s. s) [''p''] None = ''p|1.0''"
    by (simp add: versionOf_def getCacheVersion_def versionComponents_def versionSalt_def)
  have hit: "headObject ?client (bucket ?env) (location ?env (Some ''hit'')) = Inr ()"
    by (simp add: location_def template_def)
  have miss: "headObject ?client (bucket ?env) (location ?env (Some ''miss'')) = Inl (Thrown ''nf'')"
    by (simp add: location_def template_def)
  have r: "snd (getRestoreKeysCacheEntry ?env ?client (versionOf ?env (\<lambda>s. s) [''p''] None)
                  [''build-b'']) = Inr (Some ?e)"
    by (simp add: v tryRestoreKey_def Let_def location_def template_def latestFrom.simps)
  have a: "snd (getCacheEntry ?env (\<lambda>s. s) ?client [''hit'', ''build-b''] [''p''] None)
     = Inr (Some \<lparr>cacheKey = Some ''hit'', cacheVersion = Some ''p|1.0'',
                   objectKey = Some ''caches/o/r/hit''\<rparr>)"
    using mp[OF H[THEN conjunct1] hit, THEN conjunct1] by (simp add: v template_def)
  have b: "snd (getCacheEntry ?env (\<lambda>s. s) ?client [''miss'', ''build-b''] [''p''] None)
     = Inr (Some ?e)"
    by (rule mp[OF M[THEN conjunct2] conjI[OF miss r], THEN conjunct1])
  show ?thesis by (rule conjI[OF a b])
qed

theorem listing_page_bounds_selection_witness:
  "snd (getRestoreKeysCacheEntry \<lparr>bucket = Some ''bk'', repo = Some ''o/r'', platform = ''linux''\<rparr>
          \<lparr>headObject = (\<lambda>b k. Inr ()),
           listObjectsType2 = (\<lambda>b p m. Inr (take (nat m)
              (map (\<lambda>i. \<lparr>Key = ''caches/o/r/k-'' @ replicate i CHR ''x'',
                          LastModified = Number (int i)\<rparr>) [0..<101]))),
           putObjectFromFile = (\<lambda>b k f. Inr ())\<rparr>
          ''v'' [''k''])
     = Inr (Some \<lparr>cacheKey = Some (''caches/o/r/k-'' @ replicate 99 CHR ''x''),
                   cacheVersion = Some ''v'',
                   objectKey = Some (''caches/o/r/k-'' @ replicate 99 CHR ''x'')\<rparr>)
   \<and> (\<exists>obj \<in> set (take 100
              (map (\<lambda>i. \<lparr>Key = ''caches/o/r/k-'' @ replicate i CHR ''x'',
                          LastModified = Number (int i)\<rparr>) [0..<101])).
         Key obj = ''caches/o/r/k-'' @ replicate 99 CHR ''x'')
   \<and> list_all (\<lambda>ev. case ev of ListRequest b p m \<Rightarrow> m = 100 | _ \<Rightarrow> True)
        (fst (getRestoreKeysCacheEntry
          \<lparr>bucket = Some ''bk'', repo = Some ''o/r'', platform = ''linux''\<rparr>
          \<lparr>headObject = (\<lambda>b k. Inr ()),
           listObjectsType2 = (\<lambda>b p m. Inr (take (nat m)
              (map (\<lambda>i. \<lparr>Key = ''caches/o/r/k-'' @ replicate i CHR ''x'',
                          LastModified = Number (int i)\<rparr>) [0..<101]))),
           putObjectFromFile = (\<lambda>b k f. Inr ())\<rparr>
          ''v'' [''k'']))"
proof -
  let ?env = "\<lparr>bucket = Some ''bk'', repo = Some ''o/r'', platform = ''linux''\<rparr>"
  let ?store = "map (\<lambda>i. \<lparr>Key = ''caches/o/r/k-'' @ replicate i CHR ''x'',
                          LastModified = Number (int i)\<rparr>) [0..<101]"
  let ?client = "\<lparr>headObject = (\<lambda>b k. Inr ()),
           listObjectsType2 = (\<lambda>b p m. Inr (take (nat m) ?store)),
           putObjectFromFile = (\<lambda>b k f. Inr ())\<rparr>"
  let ?e = "\<lparr>cacheKey = Some (''caches/o/r/k-'' @ replicate 99 CHR ''x''),
                   cacheVersion = Some ''v'',
                   objectKey = Some (''caches/o/r/k-'' @ replicate 99 CHR ''x'')\<rparr>"
  let ?run = "getRestoreKeysCacheEntry ?env ?client ''v'' [''k'']"
  note T = listing_page_bounds_selection
      [where env = ?env and client = ?client and version = "''v''" and restoreKeys = "[''k'']"]
  have res: "snd ?run = Inr (Some ?e)" by code_simp
  from T[THEN conjunct2] res
  obtain contents obj where l: "listObjectsType2 ?client (bucket ?env) (location ?env (Some ''k'')) 100
                                  = Inr contents"
    and obj: "obj \<in> set contents"
    and e: "?e = \<lparr>cacheKey = Some (Key obj), cacheVersion = Some ''v'', objectKey = Some (Key obj)\<rparr>"
    by auto
  from l have "contents = take 100 ?store" by simp
  with obj e have a: "\<exists>obj \<in> set (take 100 ?store).
         Key obj = ''caches/o/r/k-'' @ replicate 99 CHR ''x''"
    by auto
  have b: "list_all (\<lambda>ev. case ev of ListRequest b p m \<Rightarrow> m = 100 | _ \<Rightarrow> True) (fst ?run)"
    unfolding list_all_iff
  proof
    fix ev assume "ev \<in> set (fst ?run)"
    with T[THEN conjunct1] show "case ev of ListRequest b p m \<Rightarrow> m = 100 | _ \<Rightarrow> True"
      by (cases ev) auto
  qed
  show ?thesis by (intro conjI res a b)
qed

end
